theory Spec2Isabelle
  imports Complex_Main "HOL-Library.Multiset"
begin

text \<open>The bill generator of \<^verbatim>\<open>src/lib/billGenerator.ts\<close>: the expansion of the dates, the
  distribution of the units, the synthesis of the bills and the amount in words, as functions
  of higher-order logic, each named as the method of \<^verbatim>\<open>BillGenerator\<close> it embeds.

  The numbers of the program are integers here: invoice numbers, units, months, years and
  days are of type \<open>int\<close>, without a bound; fractional inputs and the rounding of floating
  point are outside the model. The unit price and the amounts are rationals.\<close>

section \<open>Errors\<close>

text \<open>Every failure of the generator is \<^verbatim>\<open>throw new Error(message)\<close>; a function that can
  throw returns \<open>error + 'a\<close>, with \<open>Inl\<close> carrying the thrown message.\<close>

datatype error = Error string

section \<open>Strings of the JavaScript runtime\<close>

text \<open>Strings are lists of characters. The generator only builds ASCII text, so the
  white space that \<^verbatim>\<open>trim\<close> strips and the letters that \<^verbatim>\<open>toUpperCase\<close> changes are the
  ASCII ones.\<close>

definition is_space :: "char \<Rightarrow> bool" where
  "is_space c = (c \<in> set [CHR '' '', CHR 0x09, CHR 0x0A, CHR 0x0B, CHR 0x0C, CHR 0x0D])"

definition trim :: "string \<Rightarrow> string" where
  "trim s = rev (dropWhile is_space (rev (dropWhile is_space s)))"

definition upper_char :: "char \<Rightarrow> char" where
  "upper_char c =
     (let n = (of_char c :: nat) in if 97 \<le> n \<and> n \<le> 122 then char_of (n - 32) else c)"

definition toUpperCase :: "string \<Rightarrow> string" where
  "toUpperCase s = map upper_char s"

text \<open>\<^verbatim>\<open>xs[i]\<close> on an array of strings: \<open>None\<close> is \<^verbatim>\<open>undefined\<close>, which an out-of-range index
  reads. \<open>str\<close> is the conversion that string concatenation applies to the element.\<close>

definition js_at :: "string list \<Rightarrow> int \<Rightarrow> string option" where
  "js_at xs i = (if 0 \<le> i \<and> i < int (length xs) then Some (xs ! nat i) else None)"

fun str :: "string option \<Rightarrow> string" where
  "str None = ''undefined''"
| "str (Some s) = s"

text \<open>\<^verbatim>\<open>String(n)\<close> for an integer \<open>n\<close>: the decimal digits, with a minus sign when negative.\<close>

definition digit_char :: "nat \<Rightarrow> char" where
  "digit_char d = char_of (48 + d)"

fun digits_of :: "nat \<Rightarrow> string" where
  "digits_of n = (if n < 10 then [digit_char n] else digits_of (n div 10) @ [digit_char (n mod 10)])"

declare digits_of.simps [simp del]

definition String_int :: "int \<Rightarrow> string" where
  "String_int n = (if n < 0 then CHR ''-'' # digits_of (nat (- n)) else digits_of (nat n))"

text \<open>\<^verbatim>\<open>s.padStart(2, "0")\<close>.\<close>

definition padStart2 :: "string \<Rightarrow> string" where
  "padStart2 s = replicate (2 - length s) CHR ''0'' @ s"

section \<open>Dates of the JavaScript runtime\<close>

text \<open>A \<^verbatim>\<open>Date\<close> is its time value: the milliseconds since 1 January 1970. The functions
  below are those of the language standard (\<open>Day\<close>, \<open>DaysInYear\<close>, \<open>DayFromYear\<close>, \<open>MakeDay\<close>,
  \<open>MakeDate\<close>, \<open>WeekDay\<close>), on integers. Local time is taken to be at a fixed offset from
  UTC, so that the local fields of a date are the fields of its time value; the offset is 0.
  A time zone with daylight saving, where a local day can have 23 or 25 hours, is outside the
  model. The limit of \<open>\<plusminus>100,000,000\<close> days on a time value is not modelled.\<close>

definition msPerDay :: int where
  "msPerDay = 86400000"

definition Day :: "int \<Rightarrow> int" where
  "Day t = t div msPerDay"

definition TimeWithinDay :: "int \<Rightarrow> int" where
  "TimeWithinDay t = t mod msPerDay"

definition DaysInYear :: "int \<Rightarrow> int" where
  "DaysInYear y =
     (if y mod 4 \<noteq> 0 then 365 else if y mod 100 \<noteq> 0 then 366
      else if y mod 400 \<noteq> 0 then 365 else 366)"

definition DayFromYear :: "int \<Rightarrow> int" where
  "DayFromYear y = 365 * (y - 1970) + (y - 1969) div 4 - (y - 1901) div 100 + (y - 1601) div 400"

text \<open>The year of a day number \<open>d\<close> is the largest \<open>y\<close> with \<open>DayFromYear y \<le> d\<close>; it is
  found by stepping from an estimate. That the search ends is proved with the properties of
  the calendar.\<close>

function year_search :: "int \<Rightarrow> int \<Rightarrow> int" where
  "year_search d y =
     (if DayFromYear (y + 1) \<le> d then year_search d (y + 1)
      else if d < DayFromYear y then year_search d (y - 1)
      else y)"
  by pat_completeness auto

definition YearFromDay :: "int \<Rightarrow> int" where
  "YearFromDay d = year_search d (1970 + d div 366)"

definition InLeapYear :: "int \<Rightarrow> int" where
  "InLeapYear y = (if DaysInYear y = 366 then 1 else 0)"

definition DayWithinYear :: "int \<Rightarrow> int" where
  "DayWithinYear d = d - DayFromYear (YearFromDay d)"

text \<open>The day within the year on which month \<open>m\<close> (0 to 11) starts, \<open>leap\<close> being 1 in a leap
  year and 0 otherwise; \<open>month_start leap 12\<close> is the length of the year.\<close>

definition month_start :: "int \<Rightarrow> int \<Rightarrow> int" where
  "month_start leap m =
     (if m = 0 then 0 else if m = 1 then 31 else if m = 2 then 59 + leap
      else if m = 3 then 90 + leap else if m = 4 then 120 + leap else if m = 5 then 151 + leap
      else if m = 6 then 181 + leap else if m = 7 then 212 + leap else if m = 8 then 243 + leap
      else if m = 9 then 273 + leap else if m = 10 then 304 + leap else if m = 11 then 334 + leap
      else 365 + leap)"

definition MonthFromDay :: "int \<Rightarrow> int" where
  "MonthFromDay d =
     (let w = DayWithinYear d; leap = InLeapYear (YearFromDay d)
      in if w < 31 then 0 else if w < 59 + leap then 1 else if w < 90 + leap then 2
         else if w < 120 + leap then 3 else if w < 151 + leap then 4
         else if w < 181 + leap then 5 else if w < 212 + leap then 6
         else if w < 243 + leap then 7 else if w < 273 + leap then 8
         else if w < 304 + leap then 9 else if w < 334 + leap then 10 else 11)"

definition DateFromDay :: "int \<Rightarrow> int" where
  "DateFromDay d =
     DayWithinYear d - month_start (InLeapYear (YearFromDay d)) (MonthFromDay d) + 1"

definition WeekDay :: "int \<Rightarrow> int" where
  "WeekDay d = (d + 4) mod 7"

text \<open>\<open>MakeDay\<close> carries a month outside 0 to 11 into the year, and counts the date from the
  first of the month, whatever the date is.\<close>

definition MakeDay :: "int \<Rightarrow> int \<Rightarrow> int \<Rightarrow> int" where
  "MakeDay year month date =
     (let ym = year + month div 12; mn = month mod 12
      in DayFromYear ym + month_start (InLeapYear ym) mn + date - 1)"

definition MakeDate :: "int \<Rightarrow> int \<Rightarrow> int" where
  "MakeDate day time = day * msPerDay + time"

text \<open>\<open>MakeFullYear\<close>: a year from 0 to 99 means 1900 + year.\<close>

definition MakeFullYear :: "int \<Rightarrow> int" where
  "MakeFullYear year = (if 0 \<le> year \<and> year \<le> 99 then 1900 + year else year)"

text \<open>\<^verbatim>\<open>new Date(year, monthIndex, day)\<close>: midnight of that day.\<close>

definition new_Date :: "int \<Rightarrow> int \<Rightarrow> int \<Rightarrow> int" where
  "new_Date year monthIndex day = MakeDate (MakeDay (MakeFullYear year) monthIndex day) 0"

definition getFullYear :: "int \<Rightarrow> int" where
  "getFullYear t = YearFromDay (Day t)"

definition getMonth :: "int \<Rightarrow> int" where
  "getMonth t = MonthFromDay (Day t)"

definition getDate :: "int \<Rightarrow> int" where
  "getDate t = DateFromDay (Day t)"

definition getDay :: "int \<Rightarrow> int" where
  "getDay t = WeekDay (Day t)"

text \<open>\<^verbatim>\<open>date.setDate(dt)\<close>, as the new time value.\<close>

definition setDate :: "int \<Rightarrow> int \<Rightarrow> int" where
  "setDate t dt = MakeDate (MakeDay (getFullYear t) (getMonth t) dt) (TimeWithinDay t)"

text \<open>\<^verbatim>\<open>formatDate(date)\<close>: \<open>DD-MM-YYYY\<close>.\<close>

definition formatDate :: "int \<Rightarrow> string" where
  "formatDate date =
     (let day = padStart2 (String_int (getDate date));
          month = padStart2 (String_int (getMonth date + 1));
          year = String_int (getFullYear date)
      in day @ ''-'' @ month @ ''-'' @ year)"

section \<open>Parsing a date string\<close>

text \<open>\<^verbatim>\<open>s.split("-")\<close>: the fields between the hyphens; a string without a hyphen is one
  field.\<close>

fun split_on :: "char \<Rightarrow> string \<Rightarrow> string list" where
  "split_on c [] = [[]]"
| "split_on c (x # xs) =
     (if x = c then [] # split_on c xs
      else (case split_on c xs of f # fs \<Rightarrow> (x # f) # fs | [] \<Rightarrow> [[x]]))"

definition is_digit :: "char \<Rightarrow> bool" where
  "is_digit c = (let n = (of_char c :: nat) in 48 \<le> n \<and> n \<le> 57)"

definition digit_value :: "char \<Rightarrow> int" where
  "digit_value c = int (of_char c) - 48"

definition decimal :: "string \<Rightarrow> int" where
  "decimal s = foldl (\<lambda>a c. 10 * a + digit_value c) 0 s"

text \<open>\<^verbatim>\<open>Number(s)\<close> on a field of a date string; \<open>None\<close> is \<^verbatim>\<open>NaN\<close>. White space around the
  field is dropped, an empty field is 0, a run of decimal digits is its value. Every other
  field is taken to \<^verbatim>\<open>NaN\<close>: the other numeric literals of the language (a sign, a fraction, an
  exponent, a radix prefix, \<^verbatim>\<open>Infinity\<close>) are outside this model, and so are fractional
  values.\<close>

definition Number :: "string \<Rightarrow> int option" where
  "Number s =
     (let t = trim s
      in if t = [] then Some 0 else if list_all is_digit t then Some (decimal t) else None)"

text \<open>\<^verbatim>\<open>parseDate(dateString)\<close>: \<open>None\<close> is \<^verbatim>\<open>null\<close>. The destructuring takes the first three
  fields; a missing field is \<^verbatim>\<open>undefined\<close>, and with a field that is \<^verbatim>\<open>undefined\<close> or \<^verbatim>\<open>NaN\<close>
  the date is invalid, its \<^verbatim>\<open>getDate()\<close> is \<^verbatim>\<open>NaN\<close>, and the comparison rejects it.\<close>

definition parseDate :: "string \<Rightarrow> int option" where
  "parseDate dateString =
     (case map Number (split_on CHR ''-'' dateString) of
        Some day # Some month # Some year # rest \<Rightarrow>
          (let date = new_Date year (month - 1) day
           in if getDate date \<noteq> day \<or> getMonth date \<noteq> month - 1 \<or> getFullYear date \<noteq> year
              then None
              else Some date)
      | _ \<Rightarrow> None)"

text \<open>\<^verbatim>\<open>validateDateFormat(dateString)\<close>: the pattern \<^verbatim>\<open>^\d{1,2}-\d{1,2}-\d{4}$\<close>, then
  \<open>parseDate\<close>.\<close>

definition validateDateFormat :: "string \<Rightarrow> bool" where
  "validateDateFormat dateString =
     (case split_on CHR ''-'' dateString of
        [d, m, y] \<Rightarrow>
          if list_all is_digit d \<and> 1 \<le> length d \<and> length d \<le> 2 \<and>
             list_all is_digit m \<and> 1 \<le> length m \<and> length m \<le> 2 \<and>
             list_all is_digit y \<and> length y = 4
          then parseDate dateString \<noteq> None
          else False
      | _ \<Rightarrow> False)"

text \<open>The calendar: the days of month \<open>m\<close> (1 to 12) of year \<open>y\<close>, and the dates that exist.\<close>

definition leap_year :: "int \<Rightarrow> bool" where
  "leap_year y = (y mod 4 = 0 \<and> (y mod 100 \<noteq> 0 \<or> y mod 400 = 0))"

definition days_in_month :: "int \<Rightarrow> int \<Rightarrow> int" where
  "days_in_month y m =
     (if m = 2 then (if leap_year y then 29 else 28)
      else if m = 4 \<or> m = 6 \<or> m = 9 \<or> m = 11 then 30 else 31)"

definition calendar_date :: "int \<Rightarrow> int \<Rightarrow> int \<Rightarrow> bool" where
  "calendar_date d m y = (1 \<le> m \<and> m \<le> 12 \<and> 1 \<le> d \<and> d \<le> days_in_month y m)"

text \<open>Re-encoding a parsed (year, month, day): the (day, month, year) that the date made of
  them shows.\<close>

definition reencode :: "int \<Rightarrow> int \<Rightarrow> int \<Rightarrow> int \<times> int \<times> int" where
  "reencode year month day =
     (let date = new_Date year (month - 1) day
      in (getDate date, getMonth date + 1, getFullYear date))"

section \<open>Expansion of the date range\<close>

text \<open>The loop
  \<^verbatim>\<open>while (currentDate <= endDate) { ...; currentDate.setDate(currentDate.getDate() + 1); }\<close>
  of the exact range and of the span of several months: the formatted days from
  \<open>currentDate\<close> to \<open>endDate\<close> whose weekday is not excluded. That the loop ends is proved
  with the properties of the date range.\<close>

function date_loop :: "int \<Rightarrow> int \<Rightarrow> int list \<Rightarrow> string list" where
  "date_loop currentDate endDate excludeWeekdays =
     (if currentDate \<le> endDate then
        (if getDay currentDate \<notin> set excludeWeekdays then [formatDate currentDate] else []) @
        date_loop (setDate currentDate (getDate currentDate + 1)) endDate excludeWeekdays
      else [])"
  by pat_completeness auto

text \<open>The branch for a single month: the last day of the month is the date of the day before
  the first of the next month, and the loop runs over the days 1 to \<open>lastDay\<close>.\<close>

definition singleMonthDates :: "int \<Rightarrow> int \<Rightarrow> int list \<Rightarrow> string list" where
  "singleMonthDates startMonth startYear excludeWeekdays =
     (let nextMonth =
            (if startMonth = 12 then new_Date (startYear + 1) 0 1
             else new_Date startYear startMonth 1);
          lastDay = getDate (nextMonth - 24 * 60 * 60 * 1000)
      in concat (map (\<lambda>day.
            let dateObj = new_Date startYear (startMonth - 1) day
            in if getDay dateObj \<notin> set excludeWeekdays then [formatDate dateObj] else [])
          [1 .. lastDay]))"

text \<open>The branch for several months, from the first of the start month to day 0 of the month
  after the end month, which is the last day of the end month.\<close>

definition multiMonthDates :: "int \<Rightarrow> int \<Rightarrow> int \<Rightarrow> int \<Rightarrow> int list \<Rightarrow> string list" where
  "multiMonthDates startMonth startYear endMonth endYear excludeWeekdays =
     (let startDate = new_Date startYear (startMonth - 1) 1;
          finalDate = new_Date endYear endMonth 0
      in date_loop startDate finalDate excludeWeekdays)"

text \<open>The default of \<open>generateDateRange\<close>: the range of months.\<close>

definition monthRangeDates :: "int \<Rightarrow> int \<Rightarrow> int \<Rightarrow> int \<Rightarrow> int list \<Rightarrow> error + string list" where
  "monthRangeDates startMonth startYear endMonth endYear excludeWeekdays =
     (let startDate = new_Date startYear (startMonth - 1) 1;
          endDate = new_Date endYear (endMonth - 1) 1
      in if startDate > endDate then Inl (Error ''Start date cannot be after end date'')
         else
           let validDates =
                 (if startMonth = endMonth \<and> startYear = endYear
                  then singleMonthDates startMonth startYear excludeWeekdays
                  else multiMonthDates startMonth startYear endMonth endYear excludeWeekdays)
           in if length validDates = 0 then
                Inl (Error (''No valid dates found with the given constraints. '' @
                  ''Try adjusting the date range or excluded weekdays.''))
              else Inr validDates)"

text \<open>The mode of specific dates: the dates that parse and whose weekday is not excluded, in
  ascending order. The comparator of the sort is the difference of the time values of two
  dates, both of which parse after the filter, and the sort is stable.\<close>

definition specificDatesRange :: "string list \<Rightarrow> int list \<Rightarrow> error + string list" where
  "specificDatesRange dates excludeWeekdays =
     (let validDates = filter (\<lambda>date.
            case parseDate date of
              None \<Rightarrow> False
            | Some parsedDate \<Rightarrow> getDay parsedDate \<notin> set excludeWeekdays) dates
      in if length validDates = 0 then
           Inl (Error ''No valid dates found in the specified dates after excluding weekdays'')
         else Inr (sort_key (\<lambda>a. case parseDate a of Some t \<Rightarrow> t | None \<Rightarrow> 0) validDates))"

text \<open>The mode of an exact range.\<close>

definition exactRangeDates :: "string \<Rightarrow> string \<Rightarrow> int list \<Rightarrow> error + string list" where
  "exactRangeDates exactStart exactEnd excludeWeekdays =
     (case (parseDate exactStart, parseDate exactEnd) of
        (Some startDate, Some endDate) \<Rightarrow>
          if startDate > endDate then Inl (Error ''Start date cannot be after end date'')
          else
            let validDates = date_loop startDate endDate excludeWeekdays
            in if length validDates = 0 then
                 Inl (Error
                   ''No valid dates found in the specified date range after excluding weekdays'')
               else Inr validDates
      | _ \<Rightarrow> Inl (Error ''Invalid start or end date format. Please use DD-MM-YYYY format.''))"

datatype DateMode = MonthRange | ExactRange | SpecificDates

text \<open>The optional last argument of \<open>generateDateRange\<close>; a field that is absent is \<open>None\<close>.\<close>

record DateOptions =
  dateMode :: "DateMode option"
  exactStartDate :: "string option"
  exactEndDate :: "string option"
  specificDates :: "string list option"

text \<open>The guard of the mode of specific dates,
  \<^verbatim>\<open>config?.dateMode === "specific-dates" && config?.specificDates?.length\<close>:
  the list when the guard holds. An absent list and an empty list are falsy.\<close>

definition specific_dates_guard :: "DateOptions option \<Rightarrow> string list option" where
  "specific_dates_guard config =
     (case config of
        None \<Rightarrow> None
      | Some c \<Rightarrow>
          if dateMode c = Some SpecificDates then
            (case specificDates c of
               None \<Rightarrow> None
             | Some dates \<Rightarrow> if length dates \<noteq> 0 then Some dates else None)
          else None)"

text \<open>The guard of the mode of an exact range,
  \<^verbatim>\<open>config?.dateMode === "exact-range" && config?.exactStartDate && config?.exactEndDate\<close>:
  the two strings when the guard holds. An absent string and an empty string are falsy.\<close>

definition exact_range_guard :: "DateOptions option \<Rightarrow> (string \<times> string) option" where
  "exact_range_guard config =
     (case config of
        None \<Rightarrow> None
      | Some c \<Rightarrow>
          if dateMode c = Some ExactRange then
            (case (exactStartDate c, exactEndDate c) of
               (Some s, Some e) \<Rightarrow> if s \<noteq> [] \<and> e \<noteq> [] then Some (s, e) else None
             | _ \<Rightarrow> None)
          else None)"

definition generateDateRange ::
  "int \<Rightarrow> int \<Rightarrow> int \<Rightarrow> int \<Rightarrow> int list \<Rightarrow> DateOptions option \<Rightarrow> error + string list" where
  "generateDateRange startMonth startYear endMonth endYear excludeWeekdays config =
     (case specific_dates_guard config of
        Some dates \<Rightarrow> specificDatesRange dates excludeWeekdays
      | None \<Rightarrow>
          (case exact_range_guard config of
             Some (exactStart, exactEnd) \<Rightarrow> exactRangeDates exactStart exactEnd excludeWeekdays
           | None \<Rightarrow> monthRangeDates startMonth startYear endMonth endYear excludeWeekdays))"



section \<open>The random source\<close>

text \<open>\<^verbatim>\<open>Math.random()\<close> is the only source of randomness. A random source is the sequence of
  values its successive calls return; a function that draws takes the number \<open>k\<close> of calls made
  so far and returns the new count. The values are rational numbers: the products below are
  taken exactly.\<close>

type_synonym random_source = "nat \<Rightarrow> rat"

text \<open>The contract of \<^verbatim>\<open>Math.random()\<close>: every value is in \<open>[0, 1)\<close>.\<close>

definition unit_source :: "random_source \<Rightarrow> bool" where
  "unit_source rnd = (\<forall>i. 0 \<le> rnd i \<and> rnd i < 1)"

text \<open>\<^verbatim>\<open>Math.floor(Math.random() * (m + 1))\<close>, at call number \<open>k\<close>.\<close>

definition random_int :: "random_source \<Rightarrow> nat \<Rightarrow> int \<Rightarrow> int" where
  "random_int rnd k m = \<lfloor>rnd k * of_int (m + 1)\<rfloor>"

section \<open>Distribution of units\<close>

text \<open>One pass of
  \<^verbatim>\<open>for (let i = 0; i < numBills && remaining > 0; i++)\<close>
  from index \<open>i\<close> on, over the array \<open>units\<close>, the counter \<open>remaining\<close> and the number \<open>k\<close> of
  random draws made.\<close>

function sweep ::
  "random_source \<Rightarrow> int \<Rightarrow> int \<Rightarrow> nat \<Rightarrow> int list \<Rightarrow> int \<Rightarrow> nat \<Rightarrow> int list \<times> int \<times> nat" where
  "sweep rnd numBills maxUnits i units remaining k =
     (if int i < numBills \<and> remaining > 0 then
        let maxAdd = min remaining (maxUnits - units ! i) in
        if maxAdd > 0 then
          let add = random_int rnd k maxAdd in
          sweep rnd numBills maxUnits (i + 1) (units[i := units ! i + add]) (remaining - add) (k + 1)
        else sweep rnd numBills maxUnits (i + 1) units remaining k
      else (units, remaining, k))"
  by pat_completeness auto
termination
  by (relation "measure (\<lambda>(rnd, numBills, maxUnits, i, units, remaining, k). nat (numBills - int i))")
    auto

declare sweep.simps [simp del]

text \<open>The loop \<^verbatim>\<open>while (remaining > 0)\<close> around the pass. It returns only if \<open>remaining\<close>
  reaches zero; \<open>None\<close> is a loop that runs forever.\<close>

partial_function (option) allocate ::
  "random_source \<Rightarrow> int \<Rightarrow> int \<Rightarrow> int list \<Rightarrow> int \<Rightarrow> nat \<Rightarrow> (int list \<times> int \<times> nat) option" where
  "allocate rnd numBills maxUnits units remaining k =
     (if remaining > 0 then
        (case sweep rnd numBills maxUnits 0 units remaining k of
           (units', remaining', k') \<Rightarrow> allocate rnd numBills maxUnits units' remaining' k')
      else Some (units, remaining, k))"

declare allocate.simps [code]

text \<open>The shuffle \<^verbatim>\<open>for (let i = units.length - 1; i > 0; i--)\<close>: the loop body at index
  \<open>Suc i\<close> swaps \<open>units[Suc i]\<close> with \<open>units[j]\<close> for a random \<open>j \<le> Suc i\<close>.\<close>

fun shuffle :: "random_source \<Rightarrow> nat \<Rightarrow> int list \<Rightarrow> nat \<Rightarrow> int list \<times> nat" where
  "shuffle rnd 0 units k = (units, k)"
| "shuffle rnd (Suc i) units k =
     (let j = nat (random_int rnd k (int (Suc i)))
      in shuffle rnd i (units[Suc i := units ! j, j := units ! Suc i]) (k + 1))"

definition generateUnitsDistribution ::
  "random_source \<Rightarrow> int \<Rightarrow> int \<Rightarrow> int \<Rightarrow> int \<Rightarrow> (error + int list) option" where
  "generateUnitsDistribution rnd totalUnits numBills minUnits maxUnits =
     (if minUnits \<le> 0 then Some (Inl (Error ''Minimum units per bill must be greater than 0''))
      else if maxUnits \<le> 0 then
        Some (Inl (Error ''Maximum units per bill must be greater than 0''))
      else if minUnits > maxUnits then
        Some (Inl (Error (''Minimum units ('' @ String_int minUnits @
          '') cannot be greater than maximum units ('' @ String_int maxUnits @ '')'')))
      else if totalUnits \<le> 0 then
        Some (Inl (Error ''Total units to sell must be greater than 0''))
      else if numBills \<le> 0 then Some (Inl (Error ''Number of bills must be greater than 0''))
      else
        let minPossibleTotal = numBills * minUnits;
            maxPossibleTotal = numBills * maxUnits
        in
          if totalUnits < minPossibleTotal then
            Some (Inl (Error (''Cannot distribute '' @ String_int totalUnits @ '' units across '' @
              String_int numBills @ '' bills with minimum '' @ String_int minUnits @
              '' units each. '' @ ''Minimum possible total: '' @ String_int minPossibleTotal @
              '' units. '' @
              ''Either reduce the minimum units per bill or increase the total units to sell.'')))
          else if totalUnits > maxPossibleTotal then
            Some (Inl (Error (''Cannot distribute '' @ String_int totalUnits @ '' units across '' @
              String_int numBills @ '' bills with maximum '' @ String_int maxUnits @
              '' units each. '' @ ''Maximum possible total: '' @ String_int maxPossibleTotal @
              '' units. '' @
              ''Either increase the maximum units per bill or reduce the total units to sell.'')))
          else
            (case allocate rnd numBills maxUnits (replicate (nat numBills) minUnits)
                    (totalUnits - minPossibleTotal) 0 of
               None \<Rightarrow> None
             | Some (units, remaining, k) \<Rightarrow>
                 Some (Inr (fst (shuffle rnd (length units - 1) units k)))))"

text \<open>A random source that returns 0 at every call, and one that returns 1/2 at every call.\<close>

definition zero_source :: random_source where
  "zero_source i = 0"

definition half_source :: random_source where
  "half_source i = 1 / 2"

text \<open>A source keeps drawing high when, after any number of calls, a later call returns at
  least 1/2.\<close>

definition draws_high :: "random_source \<Rightarrow> bool" where
  "draws_high rnd = (\<forall>k. \<exists>i. k \<le> i \<and> 1 / 2 \<le> rnd i)"

text \<open>The first call from number \<open>k\<close> on that returns at least 1/2.\<close>

definition next_high :: "random_source \<Rightarrow> nat \<Rightarrow> nat" where
  "next_high rnd k = (LEAST i. k \<le> i \<and> 1 / 2 \<le> rnd i)"

section \<open>Distribution of invoices across dates\<close>

text \<open>\<^verbatim>\<open>Math.ceil(a / b)\<close> on integers with \<open>b > 0\<close>.\<close>

definition ceil_div :: "int \<Rightarrow> int \<Rightarrow> int" where
  "ceil_div a b = - ((- a) div b)"

text \<open>\<^verbatim>\<open>distributeInvoicesAcrossDates(numBills, availableDates)\<close>: the first loop pushes one date
  per invoice, the second loop pushes for the indices the first one left (none).\<close>

definition distributeInvoicesAcrossDates :: "int \<Rightarrow> string list \<Rightarrow> error + string list" where
  "distributeInvoicesAcrossDates numBills availableDates =
     (if length availableDates = 0 then Inl (Error ''No available dates for invoice distribution'')
      else
        let invoicesPerDate = ceil_div numBills (int (length availableDates));
            distributedDates =
              map (\<lambda>i. availableDates ! nat ((int i div invoicesPerDate) mod int (length availableDates)))
                [0 ..< nat numBills];
            distributedDates' = distributedDates @
              map (\<lambda>i. availableDates ! (i mod length availableDates))
                [length distributedDates ..< nat numBills]
        in Inr distributedDates')"

text \<open>The claim's \<open>perDate = ceil(n / len(ds))\<close>, with the division and the ceiling taken in the
  reals.\<close>

definition perDate :: "int \<Rightarrow> nat \<Rightarrow> nat" where
  "perDate n len = nat \<lceil>real_of_int n / real len\<rceil>"

section \<open>Amount in words\<close>

definition ones :: "string list" where
  "ones = ['''', ''one'', ''two'', ''three'', ''four'', ''five'', ''six'', ''seven'', ''eight'',
           ''nine'']"

definition teens :: "string list" where
  "teens = [''ten'', ''eleven'', ''twelve'', ''thirteen'', ''fourteen'', ''fifteen'', ''sixteen'',
            ''seventeen'', ''eighteen'', ''nineteen'']"

definition tens :: "string list" where
  "tens = ['''', '''', ''twenty'', ''thirty'', ''forty'', ''fifty'', ''sixty'', ''seventy'',
           ''eighty'', ''ninety'']"

definition thousands :: "string list" where
  "thousands = ['''', ''thousand'', ''million'', ''billion'']"

text \<open>The inner function \<^verbatim>\<open>convertHundreds(n)\<close>. The first \<^verbatim>\<open>if\<close> changes both \<^verbatim>\<open>result\<close> and
  \<^verbatim>\<open>n\<close>; the chain after it reads the new \<^verbatim>\<open>n\<close>.\<close>

definition convertHundreds :: "int \<Rightarrow> string" where
  "convertHundreds n =
     (let (result, n) =
            (if n \<ge> 100 then (str (js_at ones (n div 100)) @ '' hundred '', n mod 100)
             else ('''', n));
          result =
            (if n \<ge> 20 then
               result @ str (js_at tens (n div 10)) @
                 (if n mod 10 \<noteq> 0 then ''-'' @ str (js_at ones (n mod 10)) else '''')
             else if n \<ge> 10 then result @ str (js_at teens (n - 10))
             else if n > 0 then result @ str (js_at ones n)
             else result)
      in trim result)"

text \<open>The loop \<^verbatim>\<open>while (num > 0)\<close> over the groups of three digits, with its three
  variables. An empty or missing scale name is falsy and adds nothing.\<close>

function words_loop :: "int \<Rightarrow> int \<Rightarrow> string \<Rightarrow> string" where
  "words_loop num thousandCounter result =
     (if num > 0 then
        words_loop (num div 1000) (thousandCounter + 1)
          (if num mod 1000 \<noteq> 0 then
             convertHundreds (num mod 1000) @
               (case js_at thousands thousandCounter of
                  None \<Rightarrow> ''''
                | Some t \<Rightarrow> if t \<noteq> '''' then '' '' @ t else '''') @
               '' '' @ result
           else result)
      else result)"
  by pat_completeness auto
termination
  by (relation "measure (\<lambda>(num, thousandCounter, result). nat num)") auto

declare words_loop.simps [simp del]

definition numberToWords :: "int \<Rightarrow> string" where
  "numberToWords num =
     (if num = 0 then ''zero''
      else if num < 1000 then convertHundreds num
      else trim (words_loop num 0 ''''))"

definition generateAmountInWords :: "int \<Rightarrow> string" where
  "generateAmountInWords amount =
     (let words = numberToWords amount
      in ''( Rs. '' @ toUpperCase (take 1 words) @ drop 1 words @ '' only )'')"

section \<open>Synthesis of the bills\<close>

record BillConfig =
  invoiceStart :: int
  invoiceEnd :: int
  totalUnitsToSell :: int
  minUnitsPerBill :: int
  maxUnitsPerBill :: int
  startMonth :: int
  startYear :: int
  endMonth :: int
  endYear :: int
  excludeWeekdays :: "int list"
  unitPrice :: rat
  invoiceCell :: string
  dateCell :: string
  unitsCell :: string
  amountWordsCell :: string
  dateMode :: "DateMode option"
  exactStartDate :: "string option"
  exactEndDate :: "string option"
  specificDates :: "string list option"
  allowMultipleInvoicesPerDay :: "bool option"

record BillData =
  billNo :: int
  date :: string
  units :: int
  amount :: rat

definition calculateNumBills :: "int \<Rightarrow> int \<Rightarrow> int" where
  "calculateNumBills start end' = end' - start + 1"

text \<open>The options that \<open>createBillData\<close> passes to \<open>generateDateRange\<close>; an absent mode is the
  range of months.\<close>

definition date_options :: "BillConfig \<Rightarrow> DateOptions" where
  "date_options config =
     \<lparr>DateOptions.dateMode =
        Some (case dateMode config of None \<Rightarrow> MonthRange | Some mode \<Rightarrow> mode),
      DateOptions.exactStartDate = exactStartDate config,
      DateOptions.exactEndDate = exactEndDate config,
      DateOptions.specificDates = specificDates config\<rparr>"

text \<open>The two loops that build the bills differ in the list of dates only: bill \<open>i\<close> takes
  the invoice number \<open>invoiceStart + i\<close>, the date and the units at index \<open>i\<close>, and the amount
  \<open>units * unitPrice\<close>, the product taken exactly.\<close>

definition build_bills :: "BillConfig \<Rightarrow> int \<Rightarrow> string list \<Rightarrow> int list \<Rightarrow> BillData list" where
  "build_bills config numBills dates unitsList =
     map (\<lambda>i. \<lparr>billNo = invoiceStart config + int i, date = dates ! i, units = unitsList ! i,
                amount = of_int (unitsList ! i) * unitPrice config\<rparr>)
       [0 ..< nat numBills]"

text \<open>\<open>createBillData(config)\<close> with the random source of its call to the distributor. \<open>None\<close>
  is a call that does not return.\<close>

definition createBillData :: "random_source \<Rightarrow> BillConfig \<Rightarrow> (error + BillData list) option" where
  "createBillData rnd config =
     (let numBills = calculateNumBills (invoiceStart config) (invoiceEnd config)
      in if invoiceStart config \<le> 0 \<or> invoiceEnd config \<le> 0 then
           Some (Inl (Error ''Invoice numbers must be greater than 0''))
         else if invoiceStart config > invoiceEnd config then
           Some (Inl (Error (''Invoice start ('' @ String_int (invoiceStart config) @
             '') cannot be greater than invoice end ('' @ String_int (invoiceEnd config) @
             '')'')))
         else
           (case generateDateRange (startMonth config) (startYear config) (endMonth config)
                   (endYear config) (excludeWeekdays config) (Some (date_options config)) of
              Inl e \<Rightarrow> Some (Inl e)
            | Inr validDates \<Rightarrow>
                if length validDates = 0 then
                  Some (Inl (Error ''No valid dates found with the given constraints''))
                else if allowMultipleInvoicesPerDay config \<noteq> Some True \<and>
                        int (length validDates) < numBills then
                  Some (Inl (Error (''Not enough valid dates ('' @
                    String_int (int (length validDates)) @ '') for the number of bills ('' @
                    String_int numBills @ ''). '' @
                    ''Consider reducing the number of bills, expanding the date range, '' @
                    ''reducing excluded weekdays, or enabling '' @ [CHR 0x22] @
                    ''Allow multiple invoices per day'' @ [CHR 0x22] @ ''.'')))
                else
                  (case generateUnitsDistribution rnd (totalUnitsToSell config) numBills
                          (minUnitsPerBill config) (maxUnitsPerBill config) of
                     None \<Rightarrow> None
                   | Some (Inl e) \<Rightarrow> Some (Inl e)
                   | Some (Inr unitsList) \<Rightarrow>
                       if allowMultipleInvoicesPerDay config = Some True then
                         (case distributeInvoicesAcrossDates numBills validDates of
                            Inl e \<Rightarrow> Some (Inl e)
                          | Inr distributedDates \<Rightarrow>
                              Some (Inr (build_bills config numBills distributedDates unitsList)))
                       else Some (Inr (build_bills config numBills validDates unitsList)))))"

text \<open>A configuration for the examples: invoices 110 to 112, 9 units in bills of 2 to 4, the
  Saturdays of May 2025.\<close>

definition example_config :: BillConfig where
  "example_config =
     \<lparr>invoiceStart = 110, invoiceEnd = 112, totalUnitsToSell = 9, minUnitsPerBill = 2,
      maxUnitsPerBill = 4, startMonth = 5, startYear = 2025, endMonth = 5, endYear = 2025,
      excludeWeekdays = [0, 1, 2, 3, 4, 5], unitPrice = 150, invoiceCell = ''A1'',
      dateCell = ''B1'', unitsCell = ''C1'', amountWordsCell = ''D1'', dateMode = None,
      exactStartDate = None, exactEndDate = None, specificDates = None,
      allowMultipleInvoicesPerDay = None\<rparr>"

section \<open>Properties of the calendar\<close>

subsection \<open>The days before a year\<close>

lemma div_succ:
  fixes x k :: int
  assumes "0 < k"
  shows "(x + 1) div k = x div k + (if (x + 1) mod k = 0 then 1 else 0)"
proof (cases "x mod k + 1 = k")
  case True
  have "x + 1 = k * (x div k) + (x mod k + 1)" by simp
  also have "\<dots> = k * (x div k) + k" using True by simp
  finally have eq: "x + 1 = k * (x div k + 1) + 0" by (simp add: algebra_simps)
  have "(x + 1) div k = x div k + 1" using eq _ assms by (rule int_div_pos_eq) simp
  moreover have "(x + 1) mod k = 0" using eq _ assms by (rule int_mod_pos_eq) simp
  ultimately show ?thesis by simp
next
  case False
  have r: "0 \<le> x mod k + 1" "x mod k + 1 < k"
    using assms False pos_mod_bound [of k x] pos_mod_sign [of k x] by linarith+
  have eq: "x + 1 = k * (x div k) + (x mod k + 1)" by simp
  have "(x + 1) div k = x div k" using eq r by (rule int_div_pos_eq)
  moreover have "(x + 1) mod k = x mod k + 1" using eq r by (rule int_mod_pos_eq)
  moreover have "x mod k + 1 \<noteq> 0" using pos_mod_sign [of k x] assms by linarith
  ultimately show ?thesis by simp
qed

lemma DayFromYear_step: "DayFromYear (y + 1) = DayFromYear y + DaysInYear y"
proof -
  have m4: "(y - 1969 + 1) mod 4 = y mod 4"
    using mod_mult_self2 [of y 4 "- 492"] by simp
  have m100: "(y - 1901 + 1) mod 100 = y mod 100"
    using mod_mult_self2 [of y 100 "- 19"] by simp
  have m400: "(y - 1601 + 1) mod 400 = y mod 400"
    using mod_mult_self2 [of y 400 "- 4"] by simp
  have a: "(y + 1 - 1969) div 4 = (y - 1969) div 4 + (if y mod 4 = 0 then 1 else 0)"
    using div_succ [of 4 "y - 1969"] m4 by (simp add: algebra_simps)
  have b: "(y + 1 - 1901) div 100 = (y - 1901) div 100 + (if y mod 100 = 0 then 1 else 0)"
    using div_succ [of 100 "y - 1901"] m100 by (simp add: algebra_simps)
  have c: "(y + 1 - 1601) div 400 = (y - 1601) div 400 + (if y mod 400 = 0 then 1 else 0)"
    using div_succ [of 400 "y - 1601"] m400 by (simp add: algebra_simps)
  have d: "y mod 4 = 0" if "y mod 100 = 0"
  proof -
    have "(4::int) dvd 100" by simp
    moreover have "100 dvd y" using that by (simp add: mod_eq_0_iff_dvd)
    ultimately have "4 dvd y" by (rule dvd_trans)
    then show ?thesis by (simp add: mod_eq_0_iff_dvd)
  qed
  have e: "y mod 100 = 0" if "y mod 400 = 0"
  proof -
    have "(100::int) dvd 400" by simp
    moreover have "400 dvd y" using that by (simp add: mod_eq_0_iff_dvd)
    ultimately have "100 dvd y" by (rule dvd_trans)
    then show ?thesis by (simp add: mod_eq_0_iff_dvd)
  qed
  show ?thesis
    unfolding DayFromYear_def DaysInYear_def a b c using d e by auto
qed

lemma DaysInYear_bounds: "365 \<le> DaysInYear y" "DaysInYear y \<le> 366"
  by (simp_all add: DaysInYear_def)

text \<open>The search for the year of a day number ends: each step moves the year towards the
  day.\<close>

termination year_search
proof (relation "measure (\<lambda>(d, y).
    if d < DayFromYear y then nat (DayFromYear y - d) + 366 else nat (d - DayFromYear y))")
  show "wf (measure (\<lambda>(d, y).
    if d < DayFromYear y then nat (DayFromYear y - d) + 366 else nat (d - DayFromYear y)))"
    by simp
next
  fix d y assume "DayFromYear (y + 1) \<le> d"
  moreover have "DayFromYear y < DayFromYear (y + 1)"
    using DayFromYear_step [of y] DaysInYear_bounds [of y] by simp
  ultimately have "\<not> d < DayFromYear y" "\<not> d < DayFromYear (y + 1)"
    "nat (d - DayFromYear (y + 1)) < nat (d - DayFromYear y)"
    by linarith+
  then show "((d, y + 1), (d, y)) \<in> measure (\<lambda>(d, y).
    if d < DayFromYear y then nat (DayFromYear y - d) + 366 else nat (d - DayFromYear y))"
    by simp
next
  fix d y assume a: "\<not> DayFromYear (y + 1) \<le> d" "d < DayFromYear y"
  have s: "DayFromYear y = DayFromYear (y - 1) + DaysInYear (y - 1)"
    using DayFromYear_step [of "y - 1"] by simp
  have "(if d < DayFromYear (y - 1) then nat (DayFromYear (y - 1) - d) + 366
         else nat (d - DayFromYear (y - 1))) < nat (DayFromYear y - d) + 366"
    using a(2) s DaysInYear_bounds [of "y - 1"] by (simp split: if_splits) linarith
  then show "((d, y - 1), (d, y)) \<in> measure (\<lambda>(d, y).
    if d < DayFromYear y then nat (DayFromYear y - d) + 366 else nat (d - DayFromYear y))"
    using a(2) by simp
qed

declare year_search.simps [simp del]

subsection \<open>Years\<close>

lemma DayFromYear_mono: "y \<le> y' \<Longrightarrow> DayFromYear y \<le> DayFromYear y'"
proof (induction y' rule: int_ge_induct)
  case base
  show ?case by simp
next
  case (step i)
  then show ?case using DayFromYear_step [of i] DaysInYear_bounds [of i] by simp
qed

lemma DayFromYear_strict: "y < y' \<Longrightarrow> DayFromYear y < DayFromYear y'"
  using DayFromYear_mono [of "y + 1" y'] DayFromYear_step [of y] DaysInYear_bounds [of y]
  by simp

lemma year_search_bounds:
  "DayFromYear (year_search d y) \<le> d \<and> d < DayFromYear (year_search d y + 1)"
proof (induction d y rule: year_search.induct)
  case (1 d y)
  show ?case
  proof (cases "DayFromYear (y + 1) \<le> d")
    case True
    then show ?thesis using "1.IH"(1) by (subst (1 2) year_search.simps) simp
  next
    case up: False
    show ?thesis
    proof (cases "d < DayFromYear y")
      case True
      then show ?thesis using up "1.IH"(2) by (subst (1 2) year_search.simps) simp
    next
      case False
      then show ?thesis using up by (subst (1 2) year_search.simps) simp
    qed
  qed
qed

lemma YearFromDay_bounds:
  "DayFromYear (YearFromDay d) \<le> d" "d < DayFromYear (YearFromDay d + 1)"
  using year_search_bounds [of d "1970 + d div 366"] by (simp_all add: YearFromDay_def)

lemma YearFromDay_unique:
  assumes "DayFromYear y \<le> d" "d < DayFromYear (y + 1)"
  shows "YearFromDay d = y"
proof (rule ccontr)
  assume ne: "YearFromDay d \<noteq> y"
  show False
  proof (cases "YearFromDay d < y")
    case True
    then have "DayFromYear (YearFromDay d + 1) \<le> DayFromYear y"
      by (intro DayFromYear_mono) simp
    then show False using YearFromDay_bounds(2) [of d] assms(1) by simp
  next
    case False
    then have "DayFromYear (y + 1) \<le> DayFromYear (YearFromDay d)"
      using ne by (intro DayFromYear_mono) simp
    then show False using YearFromDay_bounds(1) [of d] assms(2) by simp
  qed
qed

lemma YearFromDay_ge: "DayFromYear y \<le> d \<Longrightarrow> y \<le> YearFromDay d"
  using DayFromYear_strict [of "YearFromDay d + 1" "y + 1"] DayFromYear_mono [of "YearFromDay d + 1" y]
    YearFromDay_bounds(2) [of d]
  by (cases "y \<le> YearFromDay d") simp_all

lemma DaysInYear_leap: "DaysInYear y = 365 + InLeapYear y"
  by (simp add: InLeapYear_def DaysInYear_def)

lemma InLeapYear_range: "InLeapYear y = 0 \<or> InLeapYear y = 1"
  by (simp add: InLeapYear_def)

lemma DayWithinYear_range:
  "0 \<le> DayWithinYear d" "DayWithinYear d < 365 + InLeapYear (YearFromDay d)"
  using YearFromDay_bounds [of d] DayFromYear_step [of "YearFromDay d"]
  by (simp_all add: DayWithinYear_def DaysInYear_leap)

subsection \<open>Months and dates\<close>

lemma MonthFromDay_range: "0 \<le> MonthFromDay d" "MonthFromDay d \<le> 11"
  by (simp_all add: MonthFromDay_def Let_def)

lemma MonthFromDay_start:
  "month_start (InLeapYear (YearFromDay d)) (MonthFromDay d) \<le> DayWithinYear d"
  "DayWithinYear d < month_start (InLeapYear (YearFromDay d)) (MonthFromDay d + 1)"
  using DayWithinYear_range [of d] InLeapYear_range [of "YearFromDay d"]
  by (auto simp add: MonthFromDay_def month_start_def Let_def)

text \<open>The fields of a day number make that day, and a date counted on from them makes a later
  day.\<close>

lemma MakeDay_fields:
  "MakeDay (YearFromDay d) (MonthFromDay d) (DateFromDay d + j) = d + j"
proof -
  have "MonthFromDay d div 12 = 0" "MonthFromDay d mod 12 = MonthFromDay d"
    using MonthFromDay_range [of d] by simp_all
  then show ?thesis by (simp add: MakeDay_def DateFromDay_def DayWithinYear_def)
qed

text \<open>A date within its month gives back its fields.\<close>

lemma fields_MakeDay:
  assumes "0 \<le> m" "m \<le> 11" "1 \<le> dt"
    "dt \<le> month_start (InLeapYear y) (m + 1) - month_start (InLeapYear y) m"
  shows "YearFromDay (MakeDay y m dt) = y" "MonthFromDay (MakeDay y m dt) = m"
    "DateFromDay (MakeDay y m dt) = dt"
proof -
  let ?L = "InLeapYear y"
  have md: "m div 12 = 0" "m mod 12 = m" using assms(1,2) by simp_all
  have n: "MakeDay y m dt = DayFromYear y + (month_start ?L m + dt - 1)"
    by (simp add: MakeDay_def md)
  have L: "?L = 0 \<or> ?L = 1" by (rule InLeapYear_range)
  have m: "m = 0 \<or> m = 1 \<or> m = 2 \<or> m = 3 \<or> m = 4 \<or> m = 5 \<or> m = 6 \<or> m = 7 \<or> m = 8 \<or> m = 9 \<or>
    m = 10 \<or> m = 11" using assms(1,2) by arith
  have w: "0 \<le> month_start ?L m + dt - 1" "month_start ?L m + dt - 1 < 365 + ?L"
    "month_start ?L m \<le> month_start ?L m + dt - 1"
    "month_start ?L m + dt - 1 < month_start ?L (m + 1)"
    using assms(3,4) L m by (auto simp add: month_start_def)
  show y: "YearFromDay (MakeDay y m dt) = y"
    using w(1,2) by (intro YearFromDay_unique) (simp_all add: n DayFromYear_step DaysInYear_leap)
  then have dw: "DayWithinYear (MakeDay y m dt) = month_start ?L m + dt - 1"
    by (simp add: DayWithinYear_def) (simp add: n)
  show mo: "MonthFromDay (MakeDay y m dt) = m"
    using w(3,4) L m unfolding MonthFromDay_def y dw Let_def
    by (elim disjE) (simp_all add: month_start_def)
  show "DateFromDay (MakeDay y m dt) = dt"
    unfolding DateFromDay_def y dw mo by simp
qed

text \<open>The fields of any day number are a month from 0 to 11 and a date within the month.\<close>

lemma DateFromDay_range:
  "1 \<le> DateFromDay d"
  "DateFromDay d \<le> month_start (InLeapYear (YearFromDay d)) (MonthFromDay d + 1) -
     month_start (InLeapYear (YearFromDay d)) (MonthFromDay d)"
  using MonthFromDay_start [of d] by (simp_all add: DateFromDay_def)

subsection \<open>Time values\<close>

lemma Day_MakeDate [simp]: "Day (MakeDate d 0) = d"
  by (simp add: Day_def MakeDate_def msPerDay_def)

lemma Day_new_Date: "Day (new_Date y m dt) =
    MakeDay (if 0 \<le> y \<and> y \<le> 99 then 1900 + y else y) m dt"
  by (simp add: new_Date_def MakeFullYear_def)


lemma setDate_next: "setDate t (getDate t + 1) = t + msPerDay"
proof -
  have "MakeDay (getFullYear t) (getMonth t) (getDate t + 1) = Day t + 1"
    unfolding getFullYear_def getMonth_def getDate_def by (rule MakeDay_fields)
  then show ?thesis
    by (simp add: setDate_def MakeDate_def Day_def TimeWithinDay_def algebra_simps)
qed

section \<open>Properties of date parsing\<close>

lemma month_length:
  assumes "0 \<le> m" "m \<le> 11"
  shows "month_start (InLeapYear y) (m + 1) - month_start (InLeapYear y) m = days_in_month y (m + 1)"
proof -
  have m: "m = 0 \<or> m = 1 \<or> m = 2 \<or> m = 3 \<or> m = 4 \<or> m = 5 \<or> m = 6 \<or> m = 7 \<or> m = 8 \<or> m = 9 \<or>
    m = 10 \<or> m = 11" using assms by arith
  have l: "InLeapYear y = (if leap_year y then 1 else 0)"
    by (auto simp add: InLeapYear_def DaysInYear_def leap_year_def)
  show ?thesis using m unfolding l
    by (elim disjE) (simp_all add: month_start_def days_in_month_def)
qed

lemma month_start_nonneg: "0 \<le> m \<Longrightarrow> 0 \<le> month_start (InLeapYear y) m"
  using InLeapYear_range [of y] by (auto simp add: month_start_def)

text \<open>The date made of a year, a month index and a date shows these fields again exactly when
  the month index is 0 to 11 and the date is a day of that month.\<close>

lemma MakeDay_fields_iff:
  "(YearFromDay (MakeDay y m dt) = y \<and> MonthFromDay (MakeDay y m dt) = m \<and>
    DateFromDay (MakeDay y m dt) = dt) =
   (0 \<le> m \<and> m \<le> 11 \<and> 1 \<le> dt \<and> dt \<le> days_in_month y (m + 1))"
proof
  assume f: "YearFromDay (MakeDay y m dt) = y \<and> MonthFromDay (MakeDay y m dt) = m \<and>
    DateFromDay (MakeDay y m dt) = dt"
  have m: "0 \<le> m" "m \<le> 11" using MonthFromDay_range [of "MakeDay y m dt"] f by simp_all
  have "1 \<le> dt" "dt \<le> month_start (InLeapYear y) (m + 1) - month_start (InLeapYear y) m"
    using DateFromDay_range [of "MakeDay y m dt"] f by simp_all
  then show "0 \<le> m \<and> m \<le> 11 \<and> 1 \<le> dt \<and> dt \<le> days_in_month y (m + 1)"
    using m month_length [OF m, of y] by simp
next
  assume v: "0 \<le> m \<and> m \<le> 11 \<and> 1 \<le> dt \<and> dt \<le> days_in_month y (m + 1)"
  then have "dt \<le> month_start (InLeapYear y) (m + 1) - month_start (InLeapYear y) m"
    using month_length [of m y] by simp
  then show "YearFromDay (MakeDay y m dt) = y \<and> MonthFromDay (MakeDay y m dt) = m \<and>
    DateFromDay (MakeDay y m dt) = dt"
    using v fields_MakeDay [of m dt y] by simp
qed

lemma reencode_iff:
  "(reencode y m d = (d, m, y)) = (calendar_date d m y \<and> \<not> (0 \<le> y \<and> y \<le> 99))"
proof (cases "0 \<le> y \<and> y \<le> 99")
  case False
  then show ?thesis
    using MakeDay_fields_iff [of y "m - 1" d]
    by (auto simp add: reencode_def Let_def getDate_def getMonth_def getFullYear_def
        Day_new_Date calendar_date_def)
next
  case True
  let ?n = "MakeDay (1900 + y) (m - 1) d"
  have "\<not> (DateFromDay ?n = d \<and> MonthFromDay ?n + 1 = m \<and> YearFromDay ?n = y)"
  proof
    assume f: "DateFromDay ?n = d \<and> MonthFromDay ?n + 1 = m \<and> YearFromDay ?n = y"
    then have m: "0 \<le> m - 1" "m - 1 \<le> 11" and d: "1 \<le> d"
      using MonthFromDay_range [of ?n] DateFromDay_range(1) [of ?n] by simp_all
    have md: "(m - 1) div 12 = 0" "(m - 1) mod 12 = m - 1" using m by simp_all
    have "DayFromYear (1900 + y) \<le> ?n"
      using month_start_nonneg [OF m(1), of "1900 + y"] d by (simp add: MakeDay_def md Let_def)
    then have "1900 + y \<le> YearFromDay ?n" by (rule YearFromDay_ge)
    then show False using f by simp
  qed
  then show ?thesis using True
    by (simp add: reencode_def Let_def getDate_def getMonth_def getFullYear_def Day_new_Date)
qed

subsection \<open>Fields of digits\<close>

lemma split_on_single: "c \<notin> set a \<Longrightarrow> split_on c a = [a]"
  by (induction a) auto

lemma split_on_field: "c \<notin> set a \<Longrightarrow> split_on c (a @ c # rest) = a # split_on c rest"
  by (induction a) auto

lemma digit_not_hyphen: "is_digit c \<Longrightarrow> c \<noteq> CHR ''-''"
  by (auto simp add: is_digit_def)

lemma digit_not_space: "is_digit c \<Longrightarrow> \<not> is_space c"
  by (auto simp add: is_digit_def is_space_def)

lemma digits_no_hyphen: "list_all is_digit s \<Longrightarrow> CHR ''-'' \<notin> set s"
  using digit_not_hyphen by (auto simp add: list_all_iff)

lemma split_on_digits:
  assumes "list_all is_digit ds" "list_all is_digit ms" "list_all is_digit ys"
  shows "split_on CHR ''-'' (ds @ ''-'' @ ms @ ''-'' @ ys) = [ds, ms, ys]"
  using assms by (simp add: split_on_field split_on_single digits_no_hyphen)

lemma trim_digits:
  assumes "list_all is_digit s"
  shows "trim s = s"
proof (cases s)
  case Nil
  then show ?thesis by (simp add: trim_def)
next
  case (Cons c cs)
  then have "\<not> is_space (hd s)" using assms by (simp add: digit_not_space)
  then have a: "dropWhile is_space s = s" using Cons by simp
  have ne: "s \<noteq> []" using Cons by simp
  then have "last s \<in> set s" by simp
  then have "is_digit (last s)" using assms by (simp add: list_all_iff)
  then have "\<not> is_space (hd (rev s))" using ne by (simp add: hd_rev digit_not_space)
  moreover have "rev s \<noteq> []" using ne by simp
  ultimately have "dropWhile is_space (rev s) = rev s" by (cases "rev s") simp_all
  then show ?thesis by (simp add: trim_def a)
qed

lemma Number_digits: "list_all is_digit s \<Longrightarrow> s \<noteq> [] \<Longrightarrow> Number s = Some (decimal s)"
  by (simp add: Number_def trim_digits)

lemma decimal_nonneg: "list_all is_digit s \<Longrightarrow> 0 \<le> decimal s"
proof -
  have "list_all is_digit s \<Longrightarrow> 0 \<le> a \<Longrightarrow> 0 \<le> foldl (\<lambda>a c. 10 * a + digit_value c) a s" for a
    by (induction s arbitrary: a) (auto simp add: is_digit_def digit_value_def Let_def)
  then show "list_all is_digit s \<Longrightarrow> 0 \<le> decimal s" by (simp add: decimal_def)
qed

lemma parseDate_digits:
  assumes "list_all is_digit ds" "ds \<noteq> []" "list_all is_digit ms" "ms \<noteq> []"
    "list_all is_digit ys" "ys \<noteq> []"
  shows "(parseDate (ds @ ''-'' @ ms @ ''-'' @ ys) \<noteq> None) =
    (reencode (decimal ys) (decimal ms) (decimal ds) = (decimal ds, decimal ms, decimal ys))"
  using assms
  by (simp add: parseDate_def split_on_digits Number_digits reencode_def Let_def del: append_Cons)

lemma decimal_31: "decimal ''31'' = 31" and decimal_02: "decimal ''02'' = 2"
  by code_simp+

lemma digits_31: "list_all is_digit ''31''" and digits_02: "list_all is_digit ''02''"
  by code_simp+

text \<open>Claim C7. For a date string \<open>day-month-year\<close> of three digit fields, \<open>parseDate\<close>
  returns a date exactly when re-encoding the parsed (year, month, day) shows the same
  (day, month, year); that is exactly when the day exists in the calendar and the year is not
  one of 0 to 99, which the constructor reads as 1900 to 1999. The 31st of February is
  rejected for every year.\<close>

theorem parseDate_valid:
  assumes "list_all is_digit ds" "ds \<noteq> []" "list_all is_digit ms" "ms \<noteq> []"
    "list_all is_digit ys" "ys \<noteq> []"
  shows "((parseDate (ds @ ''-'' @ ms @ ''-'' @ ys) \<noteq> None) =
      (reencode (decimal ys) (decimal ms) (decimal ds) = (decimal ds, decimal ms, decimal ys))) \<and>
    ((parseDate (ds @ ''-'' @ ms @ ''-'' @ ys) \<noteq> None) =
      (calendar_date (decimal ds) (decimal ms) (decimal ys) \<and> 100 \<le> decimal ys)) \<and>
    parseDate (''31-02-'' @ ys) = None"
proof -
  note p = parseDate_digits [OF assms]
  have y: "0 \<le> decimal ys" using assms(5) by (rule decimal_nonneg)
  have a: "(parseDate (ds @ ''-'' @ ms @ ''-'' @ ys) \<noteq> None) =
      (calendar_date (decimal ds) (decimal ms) (decimal ys) \<and> 100 \<le> decimal ys)"
    unfolding p reencode_iff using y by auto
  have "(parseDate (''31'' @ ''-'' @ ''02'' @ ''-'' @ ys) \<noteq> None) =
      (reencode (decimal ys) (decimal ''02'') (decimal ''31'') = (decimal ''31'', decimal ''02'', decimal ys))"
    using digits_31 _ digits_02 _ assms(5,6) by (rule parseDate_digits) simp_all
  moreover have "\<not> calendar_date 31 2 (decimal ys)"
    by (simp add: calendar_date_def days_in_month_def)
  ultimately have "parseDate (''31-02-'' @ ys) = None"
    unfolding reencode_iff decimal_31 decimal_02 by simp
  then show ?thesis using p a by simp
qed

text \<open>An instance: the 29th of February 2024.\<close>

theorem parseDate_valid_witness:
  "list_all is_digit ''29'' \<and> list_all is_digit ''02'' \<and> list_all is_digit ''2024'' \<and>
   parseDate ''29-02-2024'' \<noteq> None \<and> reencode 2024 2 29 = (29, 2, 2024) \<and>
   calendar_date 29 2 2024 \<and> parseDate ''31-02-2024'' = None"
proof -
  have d: "list_all is_digit ''29''" "list_all is_digit ''02''" "list_all is_digit ''2024''"
    by code_simp+
  have v: "decimal ''29'' = 29" "decimal ''02'' = 2" "decimal ''2024'' = 2024"
    by code_simp+
  have c: "calendar_date 29 2 2024" by code_simp
  have ne: "''29'' \<noteq> []" "''02'' \<noteq> []" "''2024'' \<noteq> []" by simp_all
  note t = parseDate_valid [OF d(1) ne(1) d(2) ne(2) d(3) ne(3), unfolded v append.simps]
  have "(parseDate ''29-02-2024'' \<noteq> None) = (calendar_date 29 2 2024 \<and> (100::int) \<le> 2024)"
    using t by (elim conjE)
  then have p: "parseDate ''29-02-2024'' \<noteq> None" using c by simp
  moreover have "reencode 2024 2 29 = (29, 2, 2024)" using t p by blast
  moreover have "parseDate ''31-02-2024'' = None" using t by blast
  ultimately show ?thesis using d c by simp
qed

section \<open>Properties of the date range\<close>

subsection \<open>The day-by-day loop\<close>

text \<open>The loop ends: setting the date to the next one adds a day.\<close>

termination date_loop
  by (relation "measure (\<lambda>(currentDate, endDate, excludeWeekdays).
        nat (endDate - currentDate + 1))")
    (simp_all add: setDate_next msPerDay_def)

declare date_loop.simps [simp del]





subsection \<open>The first and the last day of a month\<close>






subsection \<open>The two branches of the range of months\<close>












section \<open>Properties of the distribution of slots\<close>

subsection \<open>Random draws\<close>

lemma random_int_bounds:
  assumes "unit_source rnd" "0 \<le> m"
  shows "0 \<le> random_int rnd k m \<and> random_int rnd k m \<le> m"
proof -
  have r: "0 \<le> rnd k" "rnd k < 1" using assms(1) by (simp_all add: unit_source_def)
  have pos: "(0::rat) < of_int (m + 1)" using assms(2) by simp
  have "0 \<le> rnd k * of_int (m + 1)" using r(1) pos by simp
  then have lo: "0 \<le> random_int rnd k m" by (simp add: random_int_def)
  have "rnd k * of_int (m + 1) < 1 * of_int (m + 1)"
    using r(2) pos by (rule mult_strict_right_mono)
  then have "rnd k * of_int (m + 1) < of_int (m + 1)" by simp
  then have "\<lfloor>rnd k * of_int (m + 1)\<rfloor> < m + 1" by (simp only: floor_less_iff)
  then show ?thesis using lo by (simp add: random_int_def)
qed

lemma random_int_high:
  assumes "1 / 2 \<le> rnd k" "0 < m"
  shows "1 \<le> random_int rnd k m"
proof -
  have "(2::rat) \<le> of_int (m + 1)" using assms(2) by simp
  then have "1 \<le> (1 / 2) * (of_int (m + 1) :: rat)" by simp
  also have "\<dots> \<le> rnd k * of_int (m + 1)"
    using assms by (intro mult_right_mono) simp_all
  finally show ?thesis by (simp add: random_int_def le_floor_iff)
qed

lemma random_int_zero: "random_int zero_source k m = 0"
  by (simp add: random_int_def zero_source_def)

subsection \<open>One pass over the slots\<close>

lemma sum_list_update_int:
  "i < length xs \<Longrightarrow> sum_list (xs[i := x]) = sum_list xs - xs ! i + (x::int)"
proof (induction xs arbitrary: i)
  case Nil
  then show ?case by simp
next
  case (Cons a xs)
  then show ?case by (cases i) simp_all
qed

lemma sweep_stop:
  "\<not> (int i < n \<and> 0 < remaining) \<Longrightarrow> sweep rnd n mx i slots remaining k = (slots, remaining, k)"
  by (subst sweep.simps) (rule if_not_P)

lemma sweep_skip:
  "int i < n \<Longrightarrow> 0 < remaining \<Longrightarrow> \<not> 0 < min remaining (mx - slots ! i) \<Longrightarrow>
   sweep rnd n mx i slots remaining k = sweep rnd n mx (i + 1) slots remaining k"
  by (subst sweep.simps) (simp add: Let_def)

lemma sweep_draw:
  "int i < n \<Longrightarrow> 0 < remaining \<Longrightarrow> 0 < min remaining (mx - slots ! i) \<Longrightarrow>
   sweep rnd n mx i slots remaining k =
   sweep rnd n mx (i + 1)
     (slots[i := slots ! i + random_int rnd k (min remaining (mx - slots ! i))])
     (remaining - random_int rnd k (min remaining (mx - slots ! i))) (k + 1)"
  by (subst sweep.simps) (simp add: Let_def)

lemma sweep_inv:
  assumes "unit_source rnd"
  shows "int (length slots) = n \<Longrightarrow> \<forall>u\<in>set slots. u \<le> mx \<Longrightarrow> 0 \<le> remaining \<Longrightarrow>
    sweep rnd n mx i slots remaining k = (slots', remaining', k') \<Longrightarrow>
    length slots' = length slots \<and> (\<forall>u\<in>set slots'. u \<le> mx) \<and>
    0 \<le> remaining' \<and> remaining' \<le> remaining \<and>
    sum_list slots' + remaining' = sum_list slots + remaining \<and> k \<le> k' \<and>
    (\<forall>j<length slots. slots ! j \<le> slots' ! j)"
  using assms
proof (induction rnd n mx i slots remaining k rule: sweep.induct)
  case (1 rnd n mx i slots remaining k)
  show ?case
  proof (cases "int i < n \<and> 0 < remaining")
    case False
    then have "sweep rnd n mx i slots remaining k = (slots, remaining, k)"
      by (rule sweep_stop)
    then show ?thesis using "1.prems" by simp
  next
    case True
    define m where "m = min remaining (mx - slots ! i)"
    have i: "i < length slots" using True "1.prems"(1) by simp
    show ?thesis
    proof (cases "0 < m")
      case False
      then have eq: "sweep rnd n mx i slots remaining k = sweep rnd n mx (i + 1) slots remaining k"
        using True sweep_skip [of i n remaining mx slots rnd k] by (simp add: m_def)
      show ?thesis
        using "1.IH"(2) [OF True m_def False "1.prems"(1,2,3) _ "1.prems"(5)] "1.prems"(4) eq
        by simp
    next
      case pos: True
      define add where "add = random_int rnd k m"
      let ?slots = "slots[i := slots ! i + add]"
      have eq: "sweep rnd n mx i slots remaining k =
                sweep rnd n mx (i + 1) ?slots (remaining - add) (k + 1)"
        using True pos sweep_draw [of i n remaining mx slots rnd k] by (simp add: m_def add_def)
      have add: "0 \<le> add" "add \<le> m"
        using random_int_bounds [OF "1.prems"(5), of m k] pos by (simp_all add: add_def)
      have len: "int (length ?slots) = n" using "1.prems"(1) by simp
      have "slots ! i + add \<le> mx" using add by (simp add: m_def)
      then have ub: "\<forall>u\<in>set ?slots. u \<le> mx"
        using "1.prems"(2) set_update_subset_insert [of slots i "slots ! i + add"] by auto
      have rem: "0 \<le> remaining - add" using add by (simp add: m_def)
      have sw: "sweep rnd n mx (i + 1) ?slots (remaining - add) (k + 1) = (slots', remaining', k')"
        using "1.prems"(4) eq by simp
      note ih = "1.IH"(1) [OF True m_def pos add_def len ub rem sw "1.prems"(5)]
      have sum: "sum_list ?slots = sum_list slots + add"
        using i by (simp add: sum_list_update_int)
      have pt: "slots ! j \<le> slots' ! j" if "j < length slots" for j
      proof -
        have "slots ! j \<le> ?slots ! j" using add(1) that by (cases "j = i") simp_all
        also have "\<dots> \<le> slots' ! j" using ih that by simp
        finally show ?thesis .
      qed
      show ?thesis using ih sum add pt by simp
    qed
  qed
qed

text \<open>A pass in which some draw is made from a value of at least 1/2 lowers \<open>remaining\<close>.\<close>

lemma sweep_progress:
  assumes "unit_source rnd"
  shows "int (length slots) = n \<Longrightarrow> \<forall>u\<in>set slots. u \<le> mx \<Longrightarrow> 0 \<le> remaining \<Longrightarrow>
    sweep rnd n mx i slots remaining k = (slots', remaining', k') \<Longrightarrow>
    k \<le> j \<Longrightarrow> j < k' \<Longrightarrow> 1 / 2 \<le> rnd j \<Longrightarrow> remaining' < remaining"
  using assms
proof (induction rnd n mx i slots remaining k rule: sweep.induct)
  case (1 rnd n mx i slots remaining k)
  show ?case
  proof (cases "int i < n \<and> 0 < remaining")
    case False
    then have "sweep rnd n mx i slots remaining k = (slots, remaining, k)"
      by (rule sweep_stop)
    then show ?thesis using "1.prems" by simp
  next
    case True
    define m where "m = min remaining (mx - slots ! i)"
    show ?thesis
    proof (cases "0 < m")
      case False
      then have eq: "sweep rnd n mx i slots remaining k = sweep rnd n mx (i + 1) slots remaining k"
        using True sweep_skip [of i n remaining mx slots rnd k] by (simp add: m_def)
      show ?thesis
        using "1.IH"(2) [OF True m_def False "1.prems"(1,2,3) _ "1.prems"(5,6,7,8)] "1.prems"(4) eq
        by simp
    next
      case pos: True
      define add where "add = random_int rnd k m"
      let ?slots = "slots[i := slots ! i + add]"
      have eq: "sweep rnd n mx i slots remaining k =
                sweep rnd n mx (i + 1) ?slots (remaining - add) (k + 1)"
        using True pos sweep_draw [of i n remaining mx slots rnd k] by (simp add: m_def add_def)
      have add: "0 \<le> add" "add \<le> m"
        using random_int_bounds [OF "1.prems"(8), of m k] pos by (simp_all add: add_def)
      have len: "int (length ?slots) = n" using "1.prems"(1) by simp
      have "slots ! i + add \<le> mx" using add by (simp add: m_def)
      then have ub: "\<forall>u\<in>set ?slots. u \<le> mx"
        using "1.prems"(2) set_update_subset_insert [of slots i "slots ! i + add"] by auto
      have rem: "0 \<le> remaining - add" using add by (simp add: m_def)
      have sw: "sweep rnd n mx (i + 1) ?slots (remaining - add) (k + 1) = (slots', remaining', k')"
        using "1.prems"(4) eq by simp
      show ?thesis
      proof (cases "j = k")
        case True
        then have "1 \<le> add" using random_int_high [OF _ pos, of rnd k] "1.prems"(7)
          by (simp add: add_def)
        moreover have "remaining' \<le> remaining - add"
          using sweep_inv [OF "1.prems"(8) len ub rem sw] by simp
        ultimately show ?thesis by simp
      next
        case False
        then have "k + 1 \<le> j" using "1.prems"(5) by simp
        then have "remaining' < remaining - add"
          using "1.IH"(1) [OF True m_def pos add_def len ub rem sw _ "1.prems"(6,7,8)] by simp
        then show ?thesis using add(1) by simp
      qed
    qed
  qed
qed

text \<open>A pass that makes no draw although \<open>remaining\<close> is positive found every slot from \<open>i\<close> on
  full.\<close>

lemma sweep_no_draw:
  assumes "unit_source rnd"
  shows "int (length slots) = n \<Longrightarrow> \<forall>u\<in>set slots. u \<le> mx \<Longrightarrow> 0 < remaining \<Longrightarrow>
    sweep rnd n mx i slots remaining k = (slots', remaining', k) \<Longrightarrow>
    i \<le> j \<Longrightarrow> j < length slots \<Longrightarrow> mx \<le> slots ! j"
  using assms
proof (induction rnd n mx i slots remaining k rule: sweep.induct)
  case (1 rnd n mx i slots remaining k)
  have True: "int i < n \<and> 0 < remaining" using "1.prems" by simp
  define m where "m = min remaining (mx - slots ! i)"
  show ?case
  proof (cases "0 < m")
    case False
    then have eq: "sweep rnd n mx i slots remaining k = sweep rnd n mx (i + 1) slots remaining k"
      using True sweep_skip [of i n remaining mx slots rnd k] by (simp add: m_def)
    show ?thesis
    proof (cases "j = i")
      case True
      then show ?thesis using False "1.prems"(3) by (simp add: m_def)
    next
      case ne: False
      then have "i + 1 \<le> j" using "1.prems"(5) by simp
      then show ?thesis
        using "1.IH"(2) [OF True m_def False "1.prems"(1,2,3) _ _ "1.prems"(6,7)] "1.prems"(4) eq
        by simp
    qed
  next
    case pos: True
    define add where "add = random_int rnd k m"
    let ?slots = "slots[i := slots ! i + add]"
    have eq: "sweep rnd n mx i slots remaining k =
              sweep rnd n mx (i + 1) ?slots (remaining - add) (k + 1)"
      using True pos sweep_draw [of i n remaining mx slots rnd k] by (simp add: m_def add_def)
    have add: "0 \<le> add" "add \<le> m"
      using random_int_bounds [OF "1.prems"(7), of m k] pos by (simp_all add: add_def)
    have len: "int (length ?slots) = n" using "1.prems"(1) by simp
    have "slots ! i + add \<le> mx" using add by (simp add: m_def)
    then have ub: "\<forall>u\<in>set ?slots. u \<le> mx"
      using "1.prems"(2) set_update_subset_insert [of slots i "slots ! i + add"] by auto
    have rem: "0 \<le> remaining - add" using add by (simp add: m_def)
    have sw: "sweep rnd n mx (i + 1) ?slots (remaining - add) (k + 1) = (slots', remaining', k)"
      using "1.prems"(4) eq by simp
    have "k + 1 \<le> k" using sweep_inv [OF "1.prems"(7) len ub rem sw] by simp
    then show ?thesis by simp
  qed
qed

subsection \<open>The allocation loop\<close>

lemma allocate_stop:
  "\<not> 0 < remaining \<Longrightarrow> allocate rnd n mx slots remaining k = Some (slots, remaining, k)"
  by (subst allocate.simps) simp

lemma allocate_step:
  "0 < remaining \<Longrightarrow> sweep rnd n mx 0 slots remaining k = (slots', remaining', k') \<Longrightarrow>
   allocate rnd n mx slots remaining k = allocate rnd n mx slots' remaining' k'"
  by (subst allocate.simps) simp

lemmas allocate_induct = allocate.raw_induct [rotated 1, consumes 1, case_names step]

text \<open>What the loop has done when it returns.\<close>

lemma allocate_result:
  "allocate rnd n mx slots remaining k = Some res \<Longrightarrow>
    unit_source rnd \<Longrightarrow> int (length slots) = n \<Longrightarrow> \<forall>u\<in>set slots. u \<le> mx \<Longrightarrow>
    0 \<le> remaining \<Longrightarrow>
    length (fst res) = length slots \<and> (\<forall>u\<in>set (fst res). u \<le> mx) \<and> fst (snd res) = 0 \<and>
    sum_list (fst res) = sum_list slots + remaining \<and>
    (\<forall>j<length slots. slots ! j \<le> fst res ! j)"
proof (induct rnd n mx slots remaining k res rule: allocate_induct)
  case (step alloc rnd n mx slots remaining k res)
  show ?case
  proof (cases "0 < remaining")
    case False
    then have "res = (slots, remaining, k)" using step.hyps(2) by simp
    then show ?thesis using False step.prems by simp
  next
    case True
    obtain slots' remaining' k' where
      sw: "sweep rnd n mx 0 slots remaining k = (slots', remaining', k')"
      by (metis prod_cases3)
    then have al: "alloc rnd n mx slots' remaining' k' = Some res"
      using True step.hyps(2) by simp
    note inv = sweep_inv [OF step.prems(1,2,3,4) sw]
    have len: "int (length slots') = n" using inv step.prems(2) by simp
    note ih = step.hyps(1) [OF al step.prems(1) len]
    have "length (fst res) = length slots'" "\<forall>u\<in>set (fst res). u \<le> mx" "fst (snd res) = 0"
      "sum_list (fst res) = sum_list slots' + remaining'"
      "\<forall>j<length slots'. slots' ! j \<le> fst res ! j"
      using ih inv by simp_all
    moreover have "slots ! j \<le> fst res ! j" if "j < length slots" for j
    proof -
      have "slots ! j \<le> slots' ! j" using inv that by simp
      also have "\<dots> \<le> fst res ! j" using ih inv that by simp
      finally show ?thesis .
    qed
    ultimately show ?thesis using inv by simp
  qed
qed

text \<open>Under the source that always returns 0 no pass changes anything, and the loop does not
  return.\<close>

lemma sweep_zero_source:
  "\<exists>k'. sweep zero_source n mx i slots remaining k = (slots, remaining, k')"
proof (induction zero_source n mx i slots remaining k rule: sweep.induct)
  case (1 n mx i slots remaining k)
  show ?case
  proof (cases "int i < n \<and> 0 < remaining")
    case False
    then show ?thesis by (simp add: sweep_stop)
  next
    case True
    show ?thesis
    proof (cases "0 < min remaining (mx - slots ! i)")
      case False
      then show ?thesis
        using True "1.hyps"(2) [OF True refl False] sweep_skip [of i n remaining mx slots zero_source k]
        by simp
    next
      case pos: True
      show ?thesis
        using True "1.hyps"(1) [OF True refl pos refl]
          sweep_draw [of i n remaining mx slots zero_source k] pos
        by (simp add: random_int_zero)
    qed
  qed
qed

lemma allocate_zero_source_result:
  "allocate rnd n mx slots remaining k = Some res \<Longrightarrow> rnd = zero_source \<Longrightarrow> \<not> 0 < remaining"
proof (induct rnd n mx slots remaining k res rule: allocate_induct)
  case (step alloc rnd n mx slots remaining k res)
  show ?case
  proof
    assume pos: "0 < remaining"
    obtain k' where "sweep rnd n mx 0 slots remaining k = (slots, remaining, k')"
      using sweep_zero_source [of n mx 0 slots remaining k] step.prems by auto
    then have "alloc rnd n mx slots remaining k' = Some res"
      using pos step.hyps(2) by simp
    then show False using step.hyps(1) step.prems pos by blast
  qed
qed

lemma allocate_zero_source:
  "0 < remaining \<Longrightarrow> allocate zero_source n mx slots remaining k = None"
  using allocate_zero_source_result [of zero_source n mx slots remaining k]
  by (cases "allocate zero_source n mx slots remaining k") auto

text \<open>Under a source that keeps drawing high the loop returns: every pass draws at least
  once, and a draw from a value of at least 1/2 lowers \<open>remaining\<close>.\<close>

lemma next_high:
  assumes "draws_high rnd"
  shows "k \<le> next_high rnd k" and "1 / 2 \<le> rnd (next_high rnd k)"
proof -
  have "\<exists>i. k \<le> i \<and> 1 / 2 \<le> rnd i" using assms by (simp add: draws_high_def)
  then have "k \<le> next_high rnd k \<and> 1 / 2 \<le> rnd (next_high rnd k)"
    unfolding next_high_def by (rule LeastI_ex)
  then show "k \<le> next_high rnd k" and "1 / 2 \<le> rnd (next_high rnd k)" by simp_all
qed

lemma next_high_le: "k \<le> i \<Longrightarrow> 1 / 2 \<le> rnd i \<Longrightarrow> next_high rnd k \<le> i"
  unfolding next_high_def by (rule Least_le) simp

lemma next_high_skip:
  assumes "draws_high rnd" "k \<le> k'" "\<forall>j. k \<le> j \<and> j < k' \<longrightarrow> \<not> 1 / 2 \<le> rnd j"
  shows "next_high rnd k' = next_high rnd k" and "k' \<le> next_high rnd k"
proof -
  show le: "k' \<le> next_high rnd k"
    using next_high [OF assms(1), of k] assms(3) by (meson not_le)
  have "next_high rnd k' \<le> next_high rnd k"
    using le next_high(2) [OF assms(1), of k] by (rule next_high_le)
  moreover have "next_high rnd k \<le> next_high rnd k'"
    using next_high [OF assms(1), of k'] assms(2) by (intro next_high_le) simp_all
  ultimately show "next_high rnd k' = next_high rnd k" by simp
qed

lemma sum_list_full:
  "\<forall>u\<in>set slots. (mx::int) \<le> u \<Longrightarrow> int (length slots) * mx \<le> sum_list slots"
  by (induction slots) (simp_all add: algebra_simps)

lemma sweep_draws:
  assumes "unit_source rnd" "int (length slots) = n" "\<forall>u\<in>set slots. u \<le> mx" "0 < remaining"
    "sum_list slots + remaining \<le> n * mx"
    "sweep rnd n mx 0 slots remaining k = (slots', remaining', k')"
  shows "k < k'"
proof (rule ccontr)
  assume "\<not> k < k'"
  moreover have "k \<le> k'" using sweep_inv [OF assms(1,2,3) _ assms(6)] assms(4) by simp
  ultimately have sw: "sweep rnd n mx 0 slots remaining k = (slots', remaining', k)"
    using assms(6) by simp
  have "mx \<le> slots ! j" if "j < length slots" for j
    using sweep_no_draw [OF assms(1,2,3,4) sw _ that] by simp
  then have "\<forall>u\<in>set slots. mx \<le> u" by (metis in_set_conv_nth)
  then have "n * mx \<le> sum_list slots" using sum_list_full [of slots mx] assms(2) by simp
  then show False using assms(4,5) by simp
qed

lemma allocate_returns:
  assumes "draws_high rnd" "unit_source rnd"
  shows "int (length slots) = n \<Longrightarrow> \<forall>u\<in>set slots. u \<le> mx \<Longrightarrow> 0 \<le> remaining \<Longrightarrow>
    sum_list slots + remaining \<le> n * mx \<Longrightarrow>
    \<exists>res. allocate rnd n mx slots remaining k = Some res"
proof (induct "(nat remaining, next_high rnd k - k)" arbitrary: slots remaining k
    rule: wf_induct_rule [OF wf_lex_prod [OF wf_less_than wf_less_than], case_names less])
  case less
  show ?case
  proof (cases "0 < remaining")
    case False
    then show ?thesis by (simp add: allocate_stop)
  next
    case True
    obtain slots' remaining' k' where
      sw: "sweep rnd n mx 0 slots remaining k = (slots', remaining', k')"
      by (metis prod_cases3)
    note inv = sweep_inv [OF assms(2) less.prems(1,2,3) sw]
    have k: "k < k'" using sweep_draws [OF assms(2) less.prems(1,2) True less.prems(4) sw] .
    have dec: "((nat remaining', next_high rnd k' - k'), (nat remaining, next_high rnd k - k))
      \<in> less_than <*lex*> less_than"
    proof (cases "\<exists>j. k \<le> j \<and> j < k' \<and> 1 / 2 \<le> rnd j")
      case True
      then obtain j where "k \<le> j" "j < k'" "1 / 2 \<le> rnd j" by blast
      then have "remaining' < remaining"
        using sweep_progress [OF assms(2) less.prems(1,2,3) sw] by blast
      moreover have "0 \<le> remaining'" using inv by blast
      ultimately show ?thesis by simp
    next
      case False
      then have "next_high rnd k' = next_high rnd k" "k' \<le> next_high rnd k"
        using next_high_skip [OF assms(1), of k k'] k by auto
      then have "next_high rnd k' - k' < next_high rnd k - k" using k by simp
      moreover have "nat remaining' \<le> nat remaining" using inv by (intro nat_mono) blast
      ultimately show ?thesis by auto
    qed
    have "\<exists>res. allocate rnd n mx slots' remaining' k' = Some res"
      using less.hyps [OF dec] inv less.prems by simp
    then show ?thesis using allocate_step [OF True sw] by simp
  qed
qed

subsection \<open>The shuffle\<close>

lemma shuffle_mset:
  assumes "unit_source rnd"
  shows "i \<le> length slots - 1 \<Longrightarrow> mset (fst (shuffle rnd i slots k)) = mset slots"
proof (induction i arbitrary: slots k)
  case 0
  then show ?case by simp
next
  case (Suc i)
  define j where "j = nat (random_int rnd k (int (Suc i)))"
  have i: "Suc i < length slots" using Suc.prems by simp
  have "random_int rnd k (int (Suc i)) \<le> int (Suc i)"
    using random_int_bounds [OF assms, of "int (Suc i)" k] by simp
  then have j: "j < length slots" using i by (simp add: j_def)
  let ?slots = "slots[Suc i := slots ! j, j := slots ! Suc i]"
  have "mset ?slots = mset slots" using j i by (rule mset_swap)
  moreover have "mset (fst (shuffle rnd i ?slots (k + 1))) = mset ?slots"
    using i by (intro Suc.IH) simp
  ultimately show ?case by (simp add: j_def Let_def)
qed

subsection \<open>The distributor\<close>

lemma generateUnitsDistribution_valid:
  assumes "0 < mn" "0 < mx" "mn \<le> mx" "0 < tot" "0 < cnt" "cnt * mn \<le> tot"
    "tot \<le> cnt * mx"
  shows "generateUnitsDistribution rnd tot cnt mn mx =
    (case allocate rnd cnt mx (replicate (nat cnt) mn) (tot - cnt * mn) 0 of
       None \<Rightarrow> None
     | Some (slots, remaining, k) \<Rightarrow> Some (Inr (fst (shuffle rnd (length slots - 1) slots k))))"
  using assms by (simp add: generateUnitsDistribution_def Let_def)

lemma generateUnitsDistribution_Inr:
  assumes "generateUnitsDistribution rnd tot cnt mn mx = Some (Inr us)"
  shows "0 < mn \<and> 0 < mx \<and> mn \<le> mx \<and> 0 < tot \<and> 0 < cnt \<and> cnt * mn \<le> tot \<and>
    tot \<le> cnt * mx"
  using assms by (simp add: generateUnitsDistribution_def Let_def split: if_splits)

lemma generateUnitsDistribution_result:
  assumes "unit_source rnd" "generateUnitsDistribution rnd tot cnt mn mx = Some (Inr us)"
  shows "length us = nat cnt \<and> sum_list us = tot \<and> (\<forall>u\<in>set us. mn \<le> u \<and> u \<le> mx)"
proof -
  note pre = generateUnitsDistribution_Inr [OF assms(2)]
  let ?init = "replicate (nat cnt) mn"
  obtain slots remaining k where
    al: "allocate rnd cnt mx ?init (tot - cnt * mn) 0 = Some (slots, remaining, k)" and
    us: "us = fst (shuffle rnd (length slots - 1) slots k)"
    using assms(2) pre generateUnitsDistribution_valid [of mn mx tot cnt rnd]
    by (auto split: option.splits)
  have len: "int (length ?init) = cnt" using pre by simp
  have ub: "\<forall>u\<in>set ?init. u \<le> mx" using pre by simp
  have rem: "0 \<le> tot - cnt * mn" using pre by simp
  note res = allocate_result [OF al assms(1) len ub rem]
  have sum0: "sum_list ?init = cnt * mn" using pre by (simp add: sum_list_replicate)
  have m: "mset us = mset slots" unfolding us using assms(1) by (rule shuffle_mset) simp
  have l: "length slots = nat cnt" using res by simp
  have s: "sum_list slots = tot" using res sum0 by simp
  have lo: "mn \<le> u" if u: "u \<in> set slots" for u
  proof -
    obtain j where j: "j < length slots" "u = slots ! j"
      using u by (auto simp: in_set_conv_nth)
    then have "?init ! j \<le> slots ! j" using res by simp
    then show ?thesis using j l by simp
  qed
  have hi: "\<forall>u\<in>set slots. u \<le> mx" using res by simp
  have "length us = length slots" using m by (rule mset_eq_length)
  moreover have "sum_list us = sum_list slots"
  proof -
    have "sum_mset (mset us) = sum_mset (mset slots)" using m by simp
    then show ?thesis by (simp only: sum_mset_sum_list)
  qed
  moreover have "set us = set slots" using m by (rule mset_eq_setD)
  ultimately show ?thesis using l s lo hi by simp
qed

lemma generateUnitsDistribution_returns:
  assumes "draws_high rnd" "unit_source rnd"
    and "0 < mn" "0 < mx" "mn \<le> mx" "0 < tot" "0 < cnt" "cnt * mn \<le> tot"
    "tot \<le> cnt * mx"
  shows "\<exists>us. generateUnitsDistribution rnd tot cnt mn mx = Some (Inr us)"
proof -
  let ?init = "replicate (nat cnt) mn"
  have len: "int (length ?init) = cnt" using assms by simp
  have ub: "\<forall>u\<in>set ?init. u \<le> mx" using assms by simp
  have rem: "0 \<le> tot - cnt * mn" using assms by simp
  have "sum_list ?init = cnt * mn" using assms by (simp add: sum_list_replicate)
  then have cap: "sum_list ?init + (tot - cnt * mn) \<le> cnt * mx" using assms by simp
  obtain res where "allocate rnd cnt mx ?init (tot - cnt * mn) 0 = Some res"
    using allocate_returns [OF assms(1,2) len ub rem cap] by blast
  then show ?thesis
    using generateUnitsDistribution_valid [OF assms(3-9), of rnd] by (cases res) auto
qed

lemma unit_source_zero: "unit_source zero_source"
  by (simp add: unit_source_def zero_source_def)

lemma unit_source_half: "unit_source half_source"
  by (simp add: unit_source_def half_source_def)

lemma draws_high_half: "draws_high half_source"
  by (auto simp: draws_high_def half_source_def)

lemma sum_list_capacity:
  "\<forall>u\<in>set us. u \<le> (mx::int) \<Longrightarrow> sum_list us \<le> int (length us) * mx"
  by (induction us) (simp_all add: algebra_simps)

lemma all_full:
  "\<forall>u\<in>set us. u \<le> (mx::int) \<Longrightarrow> sum_list us = int (length us) * mx \<Longrightarrow> \<forall>u\<in>set us. u = mx"
proof (induction us)
  case Nil
  then show ?case by simp
next
  case (Cons a us)
  have "sum_list us \<le> int (length us) * mx"
    using Cons.prems(1) by (intro sum_list_capacity) simp
  then have "a = mx \<and> sum_list us = int (length us) * mx"
    using Cons.prems by (simp add: algebra_simps)
  then show ?case using Cons by simp
qed

lemma generateUnitsDistribution_no_error:
  assumes "0 < mn" "0 < mx" "mn \<le> mx" "0 < tot" "0 < cnt" "cnt * mn \<le> tot" "tot \<le> cnt * mx"
  shows "generateUnitsDistribution rnd tot cnt mn mx \<noteq> Some (Inl e)"
  using generateUnitsDistribution_valid [OF assms, of rnd] by (auto split: option.splits)

text \<open>Claim C1, as the code has it. For inputs that satisfy the preconditions of the
  distributor and every random source with values in \<open>[0, 1)\<close>: the call throws no error;
  whenever it returns, it returns \<open>count\<close> integers that sum to \<open>total\<close>, each in
  \<open>[min, max]\<close>; and it does return when the source keeps drawing values of at least 1/2.\<close>

theorem units_distribution:
  assumes "unit_source rnd"
    and "0 < mn" "0 < mx" "mn \<le> mx" "0 < tot" "0 < cnt" "cnt * mn \<le> tot" "tot \<le> cnt * mx"
  shows "(\<forall>e. generateUnitsDistribution rnd tot cnt mn mx \<noteq> Some (Inl e)) \<and>
    (\<forall>us. generateUnitsDistribution rnd tot cnt mn mx = Some (Inr us) \<longrightarrow>
       length us = nat cnt \<and> sum_list us = tot \<and> (\<forall>u\<in>set us. mn \<le> u \<and> u \<le> mx)) \<and>
    (draws_high rnd \<longrightarrow> (\<exists>us. generateUnitsDistribution rnd tot cnt mn mx = Some (Inr us)))"
proof -
  have "generateUnitsDistribution rnd tot cnt mn mx \<noteq> Some (Inl e)" for e
    using assms(2-8) by (rule generateUnitsDistribution_no_error)
  moreover have "length us = nat cnt \<and> sum_list us = tot \<and> (\<forall>u\<in>set us. mn \<le> u \<and> u \<le> mx)"
    if "generateUnitsDistribution rnd tot cnt mn mx = Some (Inr us)" for us
    using assms(1) that by (rule generateUnitsDistribution_result)
  moreover have "\<exists>us. generateUnitsDistribution rnd tot cnt mn mx = Some (Inr us)"
    if "draws_high rnd"
    using that assms by (rule generateUnitsDistribution_returns)
  ultimately show ?thesis by blast
qed

text \<open>An instance: 7 units over 3 bills of 1 to 4 units, with the source that always returns
  1/2.\<close>

theorem units_distribution_witness:
  "unit_source half_source \<and> draws_high half_source \<and>
   (\<exists>us. generateUnitsDistribution half_source 7 3 1 4 = Some (Inr us) \<and>
      length us = 3 \<and> sum_list us = 7 \<and> list_all (\<lambda>u. 1 \<le> u \<and> u \<le> 4) us)"
proof -
  note t = units_distribution [OF unit_source_half, of 1 4 7 3]
  obtain us where us: "generateUnitsDistribution half_source 7 3 1 4 = Some (Inr us)"
    using t draws_high_half by auto
  then have "length us = nat 3 \<and> sum_list us = 7 \<and> (\<forall>u\<in>set us. 1 \<le> u \<and> u \<le> 4)"
    using t by simp
  then show ?thesis using us unit_source_half draws_high_half by (simp add: list_all_iff)
qed

text \<open>The claim as stated fails: 3 units over 2 bills of 1 to 2 units satisfy the
  preconditions, and under the source that always returns 0 the call does not return.\<close>

theorem units_distribution_counterexample:
  "unit_source zero_source \<and> generateUnitsDistribution zero_source 3 2 1 2 = None"
  by (simp add: unit_source_zero generateUnitsDistribution_def allocate_zero_source)

text \<open>Claim C10, as the code has it. Under the preconditions of the distributor with
  \<open>total > count * min\<close>, the allocation loop, entered with every slot at \<open>min\<close>, returns with
  nothing remaining for every random source with values in \<open>[0, 1)\<close> that keeps drawing
  values of at least 1/2. (A draw from a value below 1/2 may add nothing.)\<close>

theorem allocation_terminates:
  assumes "draws_high rnd" "unit_source rnd"
    and "0 < mn" "0 < mx" "mn \<le> mx" "0 < tot" "0 < cnt" "cnt * mn < tot" "tot \<le> cnt * mx"
  shows "\<exists>slots k. allocate rnd cnt mx (replicate (nat cnt) mn) (tot - cnt * mn) 0 =
    Some (slots, 0, k)"
proof -
  let ?init = "replicate (nat cnt) mn"
  have len: "int (length ?init) = cnt" using assms by simp
  have ub: "\<forall>u\<in>set ?init. u \<le> mx" using assms by simp
  have rem: "0 \<le> tot - cnt * mn" using assms by simp
  have "sum_list ?init = cnt * mn" using assms by (simp add: sum_list_replicate)
  then have cap: "sum_list ?init + (tot - cnt * mn) \<le> cnt * mx" using assms by simp
  obtain res where res: "allocate rnd cnt mx ?init (tot - cnt * mn) 0 = Some res"
    using allocate_returns [OF assms(1,2) len ub rem cap] by blast
  then have "fst (snd res) = 0"
    using allocate_result [OF res assms(2) len ub rem] by simp
  then show ?thesis using res by (cases res) auto
qed

text \<open>An instance: the loop for 7 units over 3 bills of 1 to 4 units, with the source that
  always returns 1/2.\<close>

theorem allocation_terminates_witness:
  "draws_high half_source \<and> unit_source half_source \<and>
   (\<exists>slots k. allocate half_source 3 4 (replicate (nat 3) 1) (7 - 3 * 1) 0 = Some (slots, 0, k))"
  using allocation_terminates [OF draws_high_half unit_source_half, of 1 4 7 3]
  by (simp add: draws_high_half unit_source_half)

text \<open>The claim as stated fails: under the source that always returns 0, every draw is 0, an
  integer in \<open>[0, maxAdd]\<close>, and the loop entered for 3 slots over 2 bills of 1 to 2 slots
  does not return.\<close>

theorem allocation_terminates_counterexample:
  "unit_source zero_source \<and> random_int zero_source 0 1 = 0 \<and>
   allocate zero_source 2 2 (replicate (nat 2) 1) (3 - 2 * 1) 0 = None"
  by (simp add: unit_source_zero random_int_zero allocate_zero_source)

text \<open>Claim C5, as the code has it. For \<open>count > 0\<close> and \<open>0 < min \<le> max\<close> and a random source
  with values in \<open>[0, 1)\<close>: with \<open>total = count * min\<close> the allocation loop returns at once
  without a draw and the call returns every slot equal to \<open>min\<close>; with \<open>total = count * max\<close>
  the call, whenever it returns, returns every slot equal to \<open>max\<close>, and it does return when
  the source keeps drawing values of at least 1/2.\<close>

theorem distribution_boundaries:
  assumes "unit_source rnd" "0 < cnt" "0 < mn" "mn \<le> mx"
  shows "allocate rnd cnt mx (replicate (nat cnt) mn) (cnt * mn - cnt * mn) 0 =
      Some (replicate (nat cnt) mn, 0, 0) \<and>
    generateUnitsDistribution rnd (cnt * mn) cnt mn mx = Some (Inr (replicate (nat cnt) mn)) \<and>
    (generateUnitsDistribution rnd (cnt * mx) cnt mn mx = None \<or>
     generateUnitsDistribution rnd (cnt * mx) cnt mn mx = Some (Inr (replicate (nat cnt) mx))) \<and>
    (draws_high rnd \<longrightarrow>
     generateUnitsDistribution rnd (cnt * mx) cnt mn mx = Some (Inr (replicate (nat cnt) mx)))"
proof -
  have mx: "0 < mx" using assms by simp
  have lo: "cnt * mn \<le> cnt * mx" using assms by (simp add: mult_left_mono)
  have p1: "0 < cnt * mn" and p2: "0 < cnt * mx" using assms mx by simp_all
  have a: "allocate rnd cnt mx (replicate (nat cnt) mn) (cnt * mn - cnt * mn) 0 =
      Some (replicate (nat cnt) mn, 0, 0)"
    by (simp add: allocate_stop)
  have same: "us = replicate (nat cnt) v"
    if "length us = nat cnt" "\<forall>u\<in>set us. u = v" for us and v :: int
    using that replicate_length_same [of us v] by simp
  have b: "generateUnitsDistribution rnd (cnt * mn) cnt mn mx = Some (Inr (replicate (nat cnt) mn))"
  proof -
    let ?us = "fst (shuffle rnd (nat cnt - 1) (replicate (nat cnt) mn) 0)"
    have g: "generateUnitsDistribution rnd (cnt * mn) cnt mn mx = Some (Inr ?us)"
      using generateUnitsDistribution_valid [OF assms(3) mx assms(4) p1 assms(2) _ lo, of rnd] a
      by simp
    have "mset ?us = mset (replicate (nat cnt) mn)"
      using assms(1) by (rule shuffle_mset) simp
    then have "length ?us = nat cnt" "set ?us = set (replicate (nat cnt) mn)"
      using mset_eq_length [of ?us "replicate (nat cnt) mn"]
        mset_eq_setD [of ?us "replicate (nat cnt) mn"] by simp_all
    then have "?us = replicate (nat cnt) mn" by (intro same) auto
    then show ?thesis using g by simp
  qed
  have c: "us = replicate (nat cnt) mx"
    if g: "generateUnitsDistribution rnd (cnt * mx) cnt mn mx = Some (Inr us)" for us
  proof -
    note r = generateUnitsDistribution_result [OF assms(1) g]
    then have "sum_list us = int (length us) * mx" using assms(2) by simp
    then have "\<forall>u\<in>set us. u = mx" using r by (intro all_full) simp_all
    then show ?thesis using r by (intro same) simp_all
  qed
  have ne: "generateUnitsDistribution rnd (cnt * mx) cnt mn mx \<noteq> Some (Inl e)" for e
    using assms(3) mx assms(4) p2 assms(2) lo order_refl
    by (rule generateUnitsDistribution_no_error)
  have d: "generateUnitsDistribution rnd (cnt * mx) cnt mn mx = None \<or>
     generateUnitsDistribution rnd (cnt * mx) cnt mn mx = Some (Inr (replicate (nat cnt) mx))"
  proof (cases "generateUnitsDistribution rnd (cnt * mx) cnt mn mx")
    case None
    then show ?thesis by simp
  next
    case (Some r)
    then show ?thesis using ne c by (cases r) auto
  qed
  have e: "generateUnitsDistribution rnd (cnt * mx) cnt mn mx = Some (Inr (replicate (nat cnt) mx))"
    if "draws_high rnd"
    using generateUnitsDistribution_returns [OF that assms(1,3) mx assms(4) p2 assms(2) lo order_refl]
      c by auto
  show ?thesis using a b d e by blast
qed

text \<open>An instance: 3 bills of 2 to 5 units, with the source that always returns 1/2.\<close>

theorem distribution_boundaries_witness:
  "unit_source half_source \<and> draws_high half_source \<and>
   generateUnitsDistribution half_source (3 * 2) 3 2 5 = Some (Inr [2, 2, 2]) \<and>
   generateUnitsDistribution half_source (3 * 5) 3 2 5 = Some (Inr [5, 5, 5])"
  using distribution_boundaries [OF unit_source_half, of 3 2 5] draws_high_half unit_source_half
  by (simp add: numeral_3_eq_3)

text \<open>The claim as stated fails: 2 bills of 1 to 2 units with \<open>total = count * max = 4\<close>, and
  under the source that always returns 0 the call does not return; and for \<open>count = 0\<close> the
  call throws.\<close>

theorem distribution_boundaries_counterexample:
  "unit_source zero_source \<and> generateUnitsDistribution zero_source (2 * 2) 2 1 2 = None \<and>
   generateUnitsDistribution zero_source (0 * 1) 0 1 1 =
     Some (Inl (Error ''Total units to sell must be greater than 0''))"
  by (simp add: unit_source_zero generateUnitsDistribution_def allocate_zero_source)

section \<open>Properties of the synthesis of the bills\<close>

subsection \<open>The guard of the specific dates\<close>

lemma specific_dates_guard_empty:
  assumes "DateOptions.specificDates c = None \<or> DateOptions.specificDates c = Some []"
  shows "specific_dates_guard (Some c) = None"
  using assms by (auto simp add: specific_dates_guard_def)

lemma exact_range_guard_specific:
  assumes "DateOptions.dateMode c = Some SpecificDates"
  shows "exact_range_guard (Some c) = None"
  using assms by (simp add: exact_range_guard_def)

lemma generateDateRange_specific_empty:
  assumes "DateOptions.dateMode c = Some SpecificDates"
    "DateOptions.specificDates c = None \<or> DateOptions.specificDates c = Some []"
  shows "generateDateRange sm sy em ey ex (Some c) = monthRangeDates sm sy em ey ex"
  using assms
  by (simp add: generateDateRange_def specific_dates_guard_empty exact_range_guard_specific)

lemma generateDateRange_default:
  "generateDateRange sm sy em ey ex None = monthRangeDates sm sy em ey ex"
  by (simp add: generateDateRange_def specific_dates_guard_def exact_range_guard_def)

lemma monthRangeDates_errors:
  "monthRangeDates sm sy em ey ex \<noteq>
    Inl (Error ''No valid dates found in the specified dates after excluding weekdays'')"
  by (simp add: monthRangeDates_def Let_def)

lemma generateDateRange_specific:
  assumes "DateOptions.dateMode c = Some SpecificDates" "DateOptions.specificDates c = Some dates"
    "dates \<noteq> []"
  shows "generateDateRange sm sy em ey ex (Some c) = specificDatesRange dates ex"
  using assms by (simp add: generateDateRange_def specific_dates_guard_def)

text \<open>The dates of May 2025 that are Saturdays, by the range of months.\<close>

lemma may_2025_saturdays:
  "monthRangeDates 5 2025 5 2025 [0, 1, 2, 3, 4, 5] =
   Inr [''03-05-2025'', ''10-05-2025'', ''17-05-2025'', ''24-05-2025'', ''31-05-2025'']"
  by code_simp

text \<open>Claim C9. In the mode of specific dates with an empty or absent list of dates,
  \<open>generateDateRange\<close> does what it does by default, without options: it expands the range
  of months from (startMonth, startYear) to (endMonth, endYear), and its result is not the
  error of the specific dates.\<close>

theorem specific_dates_empty_falls_through:
  assumes "DateOptions.dateMode c = Some SpecificDates"
    "DateOptions.specificDates c = None \<or> DateOptions.specificDates c = Some []"
  shows "generateDateRange sm sy em ey ex (Some c) = monthRangeDates sm sy em ey ex \<and>
    generateDateRange sm sy em ey ex (Some c) = generateDateRange sm sy em ey ex None \<and>
    generateDateRange sm sy em ey ex (Some c) \<noteq>
      Inl (Error ''No valid dates found in the specified dates after excluding weekdays'')"
  using assms
  by (simp add: generateDateRange_specific_empty generateDateRange_default
      monthRangeDates_errors)

text \<open>An instance: the empty list with May 2025 and every weekday but Saturday excluded.\<close>

theorem specific_dates_empty_falls_through_witness:
  "generateDateRange 5 2025 5 2025 [0, 1, 2, 3, 4, 5]
     (Some \<lparr>DateOptions.dateMode = Some SpecificDates, exactStartDate = None,
       exactEndDate = None, specificDates = Some []\<rparr>) =
   Inr [''03-05-2025'', ''10-05-2025'', ''17-05-2025'', ''24-05-2025'', ''31-05-2025'']"
  using specific_dates_empty_falls_through [of
      "\<lparr>DateOptions.dateMode = Some SpecificDates, exactStartDate = None,
        exactEndDate = None, specificDates = Some []\<rparr>" 5 2025 5 2025 "[0, 1, 2, 3, 4, 5]"]
  by (simp add: may_2025_saturdays)

subsection \<open>Specific dates that are all excluded\<close>

lemma specificDatesRange_all_excluded:
  assumes "\<forall>d\<in>set dates. (case parseDate d of None \<Rightarrow> True | Some t \<Rightarrow> getDay t \<in> set ex)"
  shows "specificDatesRange dates ex =
    Inl (Error ''No valid dates found in the specified dates after excluding weekdays'')"
proof -
  have "filter (\<lambda>date. case parseDate date of None \<Rightarrow> False
          | Some parsedDate \<Rightarrow> getDay parsedDate \<notin> set ex) dates = []"
    using assms by (auto simp add: filter_empty_conv split: option.splits)
  then show ?thesis by (simp add: specificDatesRange_def)
qed

lemma date_options_fields:
  "DateOptions.dateMode (date_options cfg) =
     Some (case dateMode cfg of None \<Rightarrow> MonthRange | Some mode \<Rightarrow> mode)"
  "DateOptions.specificDates (date_options cfg) = specificDates cfg"
  "DateOptions.exactStartDate (date_options cfg) = exactStartDate cfg"
  "DateOptions.exactEndDate (date_options cfg) = exactEndDate cfg"
  by (simp_all add: date_options_def)

text \<open>An error of the date range is the result of \<open>createBillData\<close>, unless the invoice range
  fails first; no bill is produced either way.\<close>

lemma createBillData_date_error:
  assumes "generateDateRange (startMonth cfg) (startYear cfg) (endMonth cfg) (endYear cfg)
      (excludeWeekdays cfg) (Some (date_options cfg)) = Inl (Error msg)" "msg \<noteq> []"
  shows "\<exists>msg'. createBillData rnd cfg = Some (Inl (Error msg')) \<and> msg' \<noteq> []"
  using assms by (simp add: createBillData_def Let_def)

text \<open>Claim C4, as the code has it. In the mode of specific dates with a list of dates that
  is not empty, if every date fails to parse or falls on an excluded weekday, the expansion
  of the dates throws an error with a message that is not empty, and \<open>createBillData\<close> throws
  an error with a message that is not empty, whatever the random source: it produces no
  bill.\<close>

theorem specific_dates_all_excluded:
  assumes "dateMode cfg = Some SpecificDates" "specificDates cfg = Some dates" "dates \<noteq> []"
    "\<forall>d\<in>set dates.
       (case parseDate d of None \<Rightarrow> True | Some t \<Rightarrow> getDay t \<in> set (excludeWeekdays cfg))"
  shows "generateDateRange (startMonth cfg) (startYear cfg) (endMonth cfg) (endYear cfg)
      (excludeWeekdays cfg) (Some (date_options cfg)) =
      Inl (Error ''No valid dates found in the specified dates after excluding weekdays'') \<and>
    (\<exists>msg. createBillData rnd cfg = Some (Inl (Error msg)) \<and> msg \<noteq> [])"
proof -
  have g: "generateDateRange (startMonth cfg) (startYear cfg) (endMonth cfg) (endYear cfg)
      (excludeWeekdays cfg) (Some (date_options cfg)) =
      Inl (Error ''No valid dates found in the specified dates after excluding weekdays'')"
    using generateDateRange_specific [of "date_options cfg" dates] assms
      specificDatesRange_all_excluded [OF assms(4)]
    by (simp add: date_options_fields)
  then show ?thesis using createBillData_date_error [OF g] by simp
qed

text \<open>An instance: a Sunday and a date that does not exist, with every weekday but Saturday
  excluded.\<close>

theorem specific_dates_all_excluded_witness:
  "createBillData zero_source
     (example_config\<lparr>dateMode := Some SpecificDates,
        specificDates := Some [''04-05-2025'', ''31-02-2025'']\<rparr>) =
   Some (Inl (Error ''No valid dates found in the specified dates after excluding weekdays''))"
proof -
  let ?cfg = "example_config\<lparr>dateMode := Some SpecificDates,
        specificDates := Some [''04-05-2025'', ''31-02-2025'']\<rparr>"
  have p: "parseDate ''31-02-2025'' = None" "map_option getDay (parseDate ''04-05-2025'') = Some 0"
    by code_simp+
  have "\<forall>d\<in>set [''04-05-2025'', ''31-02-2025''].
       (case parseDate d of None \<Rightarrow> True | Some t \<Rightarrow> getDay t \<in> set (excludeWeekdays ?cfg))"
    using p by (auto simp add: example_config_def)
  then have "generateDateRange (startMonth ?cfg) (startYear ?cfg) (endMonth ?cfg) (endYear ?cfg)
      (excludeWeekdays ?cfg) (Some (date_options ?cfg)) =
      Inl (Error ''No valid dates found in the specified dates after excluding weekdays'')"
    using specific_dates_all_excluded [of ?cfg "[''04-05-2025'', ''31-02-2025'']" zero_source]
    by simp
  then show ?thesis
    by (simp add: createBillData_def Let_def) (simp add: example_config_def)
qed

text \<open>The claim as stated fails for the empty list: nothing remains of it, and the expansion
  falls through to the range of months; with the Saturdays of May 2025 and 6 units in 3
  bills of 2 to 4, \<open>createBillData\<close> returns three bills.\<close>

lemma zero_source_6_units: "generateUnitsDistribution zero_source 6 3 2 4 = Some (Inr [2, 2, 2])"
  by code_simp

theorem specific_dates_all_excluded_counterexample:
  "generateDateRange 5 2025 5 2025 [0, 1, 2, 3, 4, 5]
     (Some \<lparr>DateOptions.dateMode = Some SpecificDates, exactStartDate = None,
       exactEndDate = None, specificDates = Some []\<rparr>) =
     Inr [''03-05-2025'', ''10-05-2025'', ''17-05-2025'', ''24-05-2025'', ''31-05-2025''] \<and>
   createBillData zero_source
     (example_config\<lparr>dateMode := Some SpecificDates, specificDates := Some [],
        totalUnitsToSell := 6\<rparr>) =
     Some (Inr [\<lparr>billNo = 110, date = ''03-05-2025'', units = 2, amount = 300\<rparr>,
                \<lparr>billNo = 111, date = ''10-05-2025'', units = 2, amount = 300\<rparr>,
                \<lparr>billNo = 112, date = ''17-05-2025'', units = 2, amount = 300\<rparr>])"
proof -
  have g: "generateDateRange 5 2025 5 2025 [0, 1, 2, 3, 4, 5]
     (Some \<lparr>DateOptions.dateMode = Some SpecificDates, exactStartDate = None,
       exactEndDate = None, specificDates = Some []\<rparr>) =
     Inr [''03-05-2025'', ''10-05-2025'', ''17-05-2025'', ''24-05-2025'', ''31-05-2025'']"
    by (simp add: generateDateRange_specific_empty may_2025_saturdays)
  have u: "[0 ..< 3] = [0, 1, 2::nat]" by (simp add: upt_rec)
  show ?thesis
    by (simp add: g createBillData_def Let_def example_config_def date_options_def
        calculateNumBills_def zero_source_6_units build_bills_def u)
qed

subsection \<open>The bills\<close>

lemma length_build_bills: "length (build_bills cfg n dates us) = nat n"
  by (simp add: build_bills_def)

lemma billNo_build_bills:
  "i < nat n \<Longrightarrow> billNo (build_bills cfg n dates us ! i) = invoiceStart cfg + int i"
  by (simp add: build_bills_def)

text \<open>When \<open>createBillData\<close> returns bills, the invoice range is valid and the bills are built
  for its length.\<close>

lemma createBillData_Inr:
  assumes "createBillData rnd cfg = Some (Inr bills)"
  shows "invoiceStart cfg \<le> invoiceEnd cfg \<and>
    (\<exists>dates us. bills = build_bills cfg (invoiceEnd cfg - invoiceStart cfg + 1) dates us)"
proof -
  have r: "invoiceStart cfg \<le> invoiceEnd cfg"
    using assms by (simp add: createBillData_def Let_def split: if_splits)
  obtain validDates where v: "generateDateRange (startMonth cfg) (startYear cfg) (endMonth cfg)
      (endYear cfg) (excludeWeekdays cfg) (Some (date_options cfg)) = Inr validDates"
    using assms by (simp add: createBillData_def Let_def split: if_splits sum.splits)
  obtain unitsList where u: "generateUnitsDistribution rnd (totalUnitsToSell cfg)
      (invoiceEnd cfg - invoiceStart cfg + 1) (minUnitsPerBill cfg) (maxUnitsPerBill cfg) =
      Some (Inr unitsList)"
    using assms v
    by (simp add: createBillData_def Let_def calculateNumBills_def
        split: if_splits sum.splits option.splits)
  have "\<exists>dates. bills = build_bills cfg (invoiceEnd cfg - invoiceStart cfg + 1) dates unitsList"
    using assms v u
    by (simp add: createBillData_def Let_def calculateNumBills_def
        split: if_splits sum.splits) blast+
  then show ?thesis using r by blast
qed

lemma generateUnitsDistribution_not_None:
  assumes "draws_high rnd" "unit_source rnd"
  shows "generateUnitsDistribution rnd tot cnt mn mx \<noteq> None"
proof (cases "0 < mn \<and> 0 < mx \<and> mn \<le> mx \<and> 0 < tot \<and> 0 < cnt \<and> cnt * mn \<le> tot \<and> tot \<le> cnt * mx")
  case True
  then show ?thesis using generateUnitsDistribution_returns [OF assms, of mn mx tot cnt] by auto
next
  case False
  then show ?thesis
    by (simp add: generateUnitsDistribution_def Let_def) linarith+
qed

lemma createBillData_not_None:
  assumes "draws_high rnd" "unit_source rnd"
  shows "createBillData rnd cfg \<noteq> None"
proof -
  obtain r where "generateUnitsDistribution rnd (totalUnitsToSell cfg)
      (calculateNumBills (invoiceStart cfg) (invoiceEnd cfg)) (minUnitsPerBill cfg)
      (maxUnitsPerBill cfg) = Some r"
    using generateUnitsDistribution_not_None [OF assms] by blast
  then show ?thesis
    by (simp add: createBillData_def Let_def split: sum.splits)
qed

lemma half_source_9_units: "generateUnitsDistribution half_source 9 3 2 4 = Some (Inr [3, 3, 3])"
  by code_simp

lemma example_bills:
  "createBillData half_source example_config =
     Some (Inr [\<lparr>billNo = 110, date = ''03-05-2025'', units = 3, amount = 450\<rparr>,
                \<lparr>billNo = 111, date = ''10-05-2025'', units = 3, amount = 450\<rparr>,
                \<lparr>billNo = 112, date = ''17-05-2025'', units = 3, amount = 450\<rparr>])"
proof -
  have u: "[0 ..< 3] = [0, 1, 2::nat]" by (simp add: upt_rec)
  show ?thesis
    by (simp add: createBillData_def Let_def example_config_def date_options_def
        calculateNumBills_def generateDateRange_def specific_dates_guard_def
        exact_range_guard_def may_2025_saturdays half_source_9_units build_bills_def u)
qed

text \<open>Claim C2. Whenever \<open>createBillData\<close> returns bills, which it does only for a
  configuration that passes every validation, it returns exactly
  \<open>invoiceEnd - invoiceStart + 1\<close> bills, and bill \<open>i\<close> has the invoice number
  \<open>invoiceStart + i\<close>, whatever the random source of the distributor. For a configuration
  that passes every validation (no error is thrown) it does return bills, the random source
  having values in \<open>[0, 1)\<close> and drawing values of at least 1/2 again and again, so that the
  distributor returns.\<close>

theorem createBillData_invoices:
  "(\<forall>bills. createBillData rnd cfg = Some (Inr bills) \<longrightarrow>
      int (length bills) = invoiceEnd cfg - invoiceStart cfg + 1 \<and>
      (\<forall>i<length bills. billNo (bills ! i) = invoiceStart cfg + int i)) \<and>
   (unit_source rnd \<longrightarrow> draws_high rnd \<longrightarrow> (\<forall>e. createBillData rnd cfg \<noteq> Some (Inl e)) \<longrightarrow>
      (\<exists>bills. createBillData rnd cfg = Some (Inr bills)))"
proof -
  have a: "int (length bills) = invoiceEnd cfg - invoiceStart cfg + 1 \<and>
      (\<forall>i<length bills. billNo (bills ! i) = invoiceStart cfg + int i)"
    if b: "createBillData rnd cfg = Some (Inr bills)" for bills
  proof -
    obtain dates us where
      le: "invoiceStart cfg \<le> invoiceEnd cfg" and
      bb: "bills = build_bills cfg (invoiceEnd cfg - invoiceStart cfg + 1) dates us"
      using createBillData_Inr [OF b] by blast
    have "int (length bills) = invoiceEnd cfg - invoiceStart cfg + 1"
      using le by (simp add: bb length_build_bills)
    moreover have "\<forall>i<length bills. billNo (bills ! i) = invoiceStart cfg + int i"
      by (simp add: bb length_build_bills billNo_build_bills)
    ultimately show ?thesis by blast
  qed
  have b: "\<exists>bills. createBillData rnd cfg = Some (Inr bills)"
    if u: "unit_source rnd" and h: "draws_high rnd"
      and v: "\<forall>e. createBillData rnd cfg \<noteq> Some (Inl e)"
  proof -
    obtain r where r: "createBillData rnd cfg = Some r"
      using createBillData_not_None [OF h u, of cfg] by blast
    then show ?thesis using v by (cases r) auto
  qed
  show ?thesis using a b by blast
qed

text \<open>An instance: the invoices 110 to 112 of the example, with the source that always returns
  1/2.\<close>

theorem createBillData_invoices_witness:
  "unit_source half_source \<and> draws_high half_source \<and>
   createBillData half_source example_config =
     Some (Inr [\<lparr>billNo = 110, date = ''03-05-2025'', units = 3, amount = 450\<rparr>,
                \<lparr>billNo = 111, date = ''10-05-2025'', units = 3, amount = 450\<rparr>,
                \<lparr>billNo = 112, date = ''17-05-2025'', units = 3, amount = 450\<rparr>]) \<and>
   invoiceEnd example_config - invoiceStart example_config + 1 = 3"
proof -
  have "\<forall>e. createBillData half_source example_config \<noteq> Some (Inl e)"
    by (simp add: example_bills)
  then obtain bills where b: "createBillData half_source example_config = Some (Inr bills)"
    using createBillData_invoices [of half_source example_config] unit_source_half
      draws_high_half
    by blast
  then have "int (length bills) = invoiceEnd example_config - invoiceStart example_config + 1"
    using createBillData_invoices [of half_source example_config] by blast
  moreover have "length bills = 3" using b unfolding example_bills by auto
  ultimately have "invoiceEnd example_config - invoiceStart example_config + 1 = 3"
    by simp
  then show ?thesis using unit_source_half draws_high_half example_bills by simp
qed

section \<open>Properties of the distribution across dates\<close>

lemma ceil_div_ceiling:
  "0 < b \<Longrightarrow> ceil_div a b = \<lceil>real_of_int a / real_of_int b\<rceil>"
proof -
  have "\<lfloor>real_of_int (- a) / real_of_int b\<rfloor> = (- a) div b"
    by (rule floor_divide_of_int_eq)
  then show ?thesis
    by (simp add: ceil_div_def ceiling_def)
qed

lemma perDate_ceil_div: "0 < len \<Longrightarrow> int (perDate n len) = max 0 (ceil_div n (int len))"
  using ceil_div_ceiling [of "int len" n] by (simp add: perDate_def max_def)

lemma ceil_div_pos: "1 \<le> n \<Longrightarrow> 0 < b \<Longrightarrow> 1 \<le> ceil_div n b"
proof -
  assume n: "1 \<le> n" and b: "0 < b"
  have "(- n) div b < 0" using n b by (simp add: pos_imp_zdiv_neg_iff)
  then show ?thesis by (simp add: ceil_div_def)
qed

lemma ceil_div_upper: "0 < b \<Longrightarrow> n \<le> ceil_div n b * b"
proof -
  assume b: "0 < b"
  have "(- n) div b * b \<le> - n" using b
    by (metis pos_mod_sign add_le_cancel_left add.right_neutral div_mult_mod_eq)
  then show ?thesis by (simp add: ceil_div_def)
qed


lemma div_lt_len:
  assumes "i < nat n" "1 \<le> n" "0 < len"
  shows "i div perDate n len < len"
proof -
  have p: "int (perDate n len) = ceil_div n (int len)"
    using perDate_ceil_div [of len n] ceil_div_pos [of n "int len"] assms by simp
  have "n \<le> int (perDate n len) * int len"
    using ceil_div_upper [of "int len" n] assms p by simp
  then have "nat n \<le> perDate n len * len"
    by (metis nat_le_iff of_nat_mult)
  then have "i < len * perDate n len" using assms by (simp add: mult.commute)
  then show ?thesis by (simp add: less_mult_imp_div_less mult.commute)
qed

text \<open>Claim C3. With multiple invoices per day, for \<open>n \<ge> 1\<close> invoices and a non-empty list
  \<open>ds\<close> of available dates, \<open>distributeInvoicesAcrossDates\<close> returns \<open>n\<close> dates; invoice \<open>i\<close>
  gets \<open>ds[(i div perDate) mod len(ds)]\<close> with \<open>perDate = ceil(n / len(ds))\<close>, which is one of the
  available dates; the date indices are non-decreasing in \<open>i\<close>; and for 10 invoices over 3
  dates every available date is used.\<close>

theorem distribute_dates:
  assumes "1 \<le> n" "ds \<noteq> []"
  shows "\<exists>r. distributeInvoicesAcrossDates n ds = Inr r \<and> length r = nat n \<and>
           (\<forall>i < nat n. r ! i = ds ! ((i div perDate n (length ds)) mod length ds) \<and> r ! i \<in> set ds) \<and>
           (\<forall>i j. i \<le> j \<and> j < nat n \<longrightarrow>
              (i div perDate n (length ds)) mod length ds \<le> (j div perDate n (length ds)) mod length ds) \<and>
           (n = 10 \<and> length ds = 3 \<longrightarrow> set r = set ds)"
proof -
  let ?L = "length ds" and ?p = "perDate n (length ds)"
  have L: "0 < ?L" using assms by simp
  have p: "int ?p = ceil_div n (int ?L)"
    using perDate_ceil_div [of ?L n] ceil_div_pos [of n "int ?L"] assms L by simp
  have idx: "nat ((int i div ceil_div n (int ?L)) mod int ?L) = (i div ?p) mod ?L" for i
    by (simp flip: p add: zdiv_int [symmetric] zmod_int [symmetric])
  let ?r = "map (\<lambda>i. ds ! ((i div ?p) mod ?L)) [0 ..< nat n]"
  have r: "distributeInvoicesAcrossDates n ds = Inr ?r"
    using L by (simp add: distributeInvoicesAcrossDates_def Let_def idx)
  have lt: "i div ?p < ?L" if "i < nat n" for i
    using div_lt_len [OF that assms(1) L] .
  have a: "\<forall>i < nat n. ?r ! i = ds ! ((i div ?p) mod ?L) \<and> ?r ! i \<in> set ds"
    using L by simp
  have b: "\<forall>i j. i \<le> j \<and> j < nat n \<longrightarrow> (i div ?p) mod ?L \<le> (j div ?p) mod ?L"
  proof (intro allI impI)
    fix i j assume ij: "i \<le> j \<and> j < nat n"
    then have "i div ?p < ?L" "j div ?p < ?L" using lt by auto
    moreover have "i div ?p \<le> j div ?p" using ij by (simp add: div_le_mono)
    ultimately show "(i div ?p) mod ?L \<le> (j div ?p) mod ?L" by simp
  qed
  have c: "n = 10 \<and> ?L = 3 \<longrightarrow> set ?r = set ds"
  proof
    assume h: "n = 10 \<and> ?L = 3"
    then have pv: "?p = 4" by (simp add: perDate_def)
    have "set ds \<subseteq> set ?r"
    proof
      fix x assume "x \<in> set ds"
      then obtain k where k: "k < 3" "x = ds ! k" using h by (metis in_set_conv_nth)
      then have "k = 0 \<or> k = 1 \<or> k = 2" by arith
      then have "4 * k < nat n \<and> ((4 * k) div ?p) mod ?L = k" using h pv by auto
      then have "?r ! (4 * k) = x" using k by simp
      moreover have "4 * k < length ?r" using \<open>k < 3\<close> h by simp
      ultimately show "x \<in> set ?r" by (metis nth_mem)
    qed
    moreover have "set ?r \<subseteq> set ds" using L by auto
    ultimately show "set ?r = set ds" by (rule equalityI [rotated])
  qed
  show ?thesis using r a b c by (intro exI [of _ ?r]) simp
qed

text \<open>The instance of the scenario: 10 invoices, 3 dates.\<close>

theorem distribute_dates_witness:
  "(1::int) \<le> 10 \<and> [''01-05-2025'', ''02-05-2025'', ''03-05-2025''] \<noteq> [] \<and>
   perDate 10 3 = 4 \<and>
   (\<exists>r. distributeInvoicesAcrossDates 10 [''01-05-2025'', ''02-05-2025'', ''03-05-2025''] = Inr r \<and>
     length r = 10 \<and> set r = {''01-05-2025'', ''02-05-2025'', ''03-05-2025''})"
proof -
  let ?ds = "[''01-05-2025'', ''02-05-2025'', ''03-05-2025'']"
  have pv: "perDate 10 3 = 4" by (simp add: perDate_def)
  have h1: "(1::int) \<le> 10" and h2: "?ds \<noteq> []" by simp_all
  obtain r where r: "distributeInvoicesAcrossDates 10 ?ds = Inr r" "length r = nat 10"
    and s: "10 = (10::int) \<and> length ?ds = 3 \<longrightarrow> set r = set ?ds"
    using distribute_dates [OF h1 h2] by blast
  have "set r = set ?ds" using s by simp
  then show ?thesis using r pv by simp
qed

section \<open>Properties of the amount in words\<close>

lemma convertHundreds_100: "convertHundreds 100 = ''one hundred''"
  by code_simp

text \<open>Claim C8. Zero is spelled \<open>zero\<close>, \<open>numberToWords(100)\<close> is \<open>one hundred\<close>, and
  \<open>generateAmountInWords(100)\<close> is the phrase \<open>( Rs. One hundred only )\<close>: the words in the
  currency template, first letter capitalised.\<close>

theorem amount_in_words:
  "numberToWords 0 = ''zero'' \<and> numberToWords 100 = ''one hundred'' \<and>
   generateAmountInWords 100 = ''( Rs. One hundred only )''"
  by code_simp

end
